theory Spec2Isabelle
  imports Main "HOL-Library.Char_ord" "HOL-Library.List_Lexorder" "HOL-Library.Product_Lexorder"
    "HOL-Library.Multiset"
begin

section \<open>The query parser (class Term)\<close>

text \<open>
  Exceptions of the Python source that can reach the caller of the search engine.
  The only one raised by the parser and the ranker is the \<open>IndexError\<close> of
  \<open>strng[0]\<close> on an empty string.
\<close>

datatype error = IndexError

text \<open>
  A Term's key is a Python string or a tuple of two or three strings.
\<close>

datatype pykey = Str string | Tup2 string string | Tup3 string string string

text \<open>
  \<open>Term(key, term_type, points)\<close>: the key to look up, the kind of lookup
  (one of the strings c, a, v, ca, cv, av, cav) and the points a match is worth.
\<close>

record Term =
  key :: pykey
  term_type :: string
  points :: int

text \<open>The four characters of the classes \<open>[^@=#*]\<close> and \<open>[@=#\*]\<close>.\<close>

definition is_marker :: "char \<Rightarrow> bool" where
  "is_marker c \<longleftrightarrow> c \<in> set ''@=#*''"

text \<open>
  \<open>re.search(escape_char + '([^@=#*]+)[@=#\*]', strng)\<close>, returning group 1 of the
  leftmost match. At an occurrence of the escape character the group is greedy and
  can hold no marker, and it must be followed by a marker: so it is the whole run of
  non-markers after the escape character, the match succeeding when that run is not
  empty and does not reach the end of the string.
\<close>

fun re_search_mid :: "char \<Rightarrow> string \<Rightarrow> string option" where
  "re_search_mid e [] = None"
| "re_search_mid e (c # cs) =
     (if c = e \<and> takeWhile (\<lambda>x. \<not> is_marker x) cs \<noteq> []
            \<and> dropWhile (\<lambda>x. \<not> is_marker x) cs \<noteq> []
      then Some (takeWhile (\<lambda>x. \<not> is_marker x) cs)
      else re_search_mid e cs)"

text \<open>
  \<open>re.search(escape_char + '([^@=#*]*)$', strng)\<close>, returning group 1 of the
  leftmost match: the escape character followed by non-markers only, up to the end of
  the string (the greedy group takes a final newline too, so that \<open>$\<close> is met at the
  very end).
\<close>

fun re_search_end :: "char \<Rightarrow> string \<Rightarrow> string option" where
  "re_search_end e [] = None"
| "re_search_end e (c # cs) =
     (if c = e \<and> list_all (\<lambda>x. \<not> is_marker x) cs then Some cs
      else re_search_end e cs)"

text \<open>
  The escape strings of \<open>parse_input\<close>. They are spliced into the regular expressions
  as pattern text; \<open>any_escape\<close> is the two characters backslash and star.
\<close>

definition any_escape :: string where "any_escape = [CHR 0x5C, CHR ''*'']"
definition class_escape :: string where "class_escape = ''#''"
definition attr_escape :: string where "attr_escape = ''@''"
definition value_escape :: string where "value_escape = ''=''"

text \<open>
  The character that an escape string matches as a pattern: itself for the one-character
  strings, and the escaped character for backslash-star.
\<close>

definition re_literal :: "string \<Rightarrow> char" where
  "re_literal escape_char = last escape_char"

definition build_search_term :: "string \<Rightarrow> string \<Rightarrow> bool \<times> string" where
  "build_search_term escape_char strng =
     (case re_search_mid (re_literal escape_char) strng of
        Some term_string \<Rightarrow> (length term_string > 0, term_string)
      | None \<Rightarrow>
         (case re_search_end (re_literal escape_char) strng of
            Some term_string \<Rightarrow> (length term_string > 0, term_string)
          | None \<Rightarrow> (False, '''')))"

definition cls :: "pykey \<Rightarrow> string \<Rightarrow> int \<Rightarrow> Term" where
  "cls k t p = \<lparr>key = k, term_type = t, points = p\<rparr>"

text \<open>
  \<open>Term.parse_input\<close>. \<open>strng[0]\<close> raises on the empty string. The first character is
  compared, as a string, with the four escape strings; the two-character
  \<open>any_escape\<close> is never equal to it, so a leading star gets a second star in front.
\<close>

definition parse_input :: "string \<Rightarrow> error + Term list" where
  "parse_input strng =
     (case strng of
        [] \<Rightarrow> Inl IndexError
      | c # _ \<Rightarrow>
         (let new_string =
                (if [c] \<notin> set [any_escape, class_escape, attr_escape, value_escape]
                 then ''*'' @ strng else strng);
              (class_valid, class_str) = build_search_term class_escape new_string;
              (attr_valid, attr_str) = build_search_term attr_escape new_string;
              (value_valid, value_str) = build_search_term value_escape new_string;
              (any_valid, any_str) = build_search_term any_escape new_string
          in Inr
            (if class_valid \<and> attr_valid \<and> value_valid then
               [cls (Tup3 class_str attr_str value_str) ''cav'' 8]
             else if class_valid \<and> attr_valid then
               (if any_valid then [cls (Tup3 class_str attr_str any_str) ''cav'' 6]
                else [cls (Tup2 class_str attr_str) ''ca'' 4])
             else if class_valid \<and> value_valid then
               (if any_valid then [cls (Tup3 class_str any_str value_str) ''cav'' 6]
                else [cls (Tup2 class_str value_str) ''cv'' 4])
             else if class_valid \<and> any_valid then
               [cls (Tup2 class_str any_str) ''ca'' 3, cls (Tup2 class_str any_str) ''cv'' 3]
             else if attr_valid \<and> value_valid then
               (if any_valid then [cls (Tup3 any_str attr_str value_str) ''cav'' 6]
                else [cls (Tup2 attr_str value_str) ''av'' 4])
             else if attr_valid \<and> any_valid then
               [cls (Tup2 any_str attr_str) ''ca'' 3, cls (Tup2 attr_str any_str) ''av'' 3]
             else if value_valid \<and> any_valid then
               [cls (Tup2 any_str value_str) ''cv'' 3, cls (Tup2 any_str value_str) ''av'' 3]
             else if class_valid then [cls (Str class_str) ''c'' 2]
             else if attr_valid then [cls (Str attr_str) ''a'' 2]
             else if value_valid then [cls (Str value_str) ''v'' 2]
             else if any_valid then
               [cls (Str any_str) ''c'' 1, cls (Str any_str) ''a'' 1, cls (Str any_str) ''v'' 1]
             else [])))"

section \<open>The index (class SearchIndexLookup)\<close>

text \<open>
  A searchable object as the index builder reads it: \<open>object_class\<close>, the iterables
  \<open>attr\<close>, \<open>value\<close> and \<open>attr_value\<close> in the order in which they are enumerated, and
  \<open>dn\<close>, the unique id that \<open>searchable.primary.get_attributes()['dn']\<close> gives.
\<close>

record searchable =
  object_class :: string
  attr :: "string list"
  value' :: "string list"
  attr_value :: "(string \<times> string) list"
  dn :: string

text \<open>
  One entry of \<open>ranked_items\<close>: the dictionary with the keys pscore, sscore and terms.
  A record of the response list has the key uid as well.
\<close>

record rank_item =
  pscore :: int
  sscore :: int
  terms :: "string set"

record ranked = rank_item +
  uid :: string

text \<open>
  The state of a \<open>SearchIndexLookup\<close> object: the seven dictionaries from a key to a
  set of ids, and \<open>ranked_items\<close>, which \<open>_rank_results\<close> assigns (the empty map
  stands for the attribute before the first search).
\<close>

record index =
  by_attr :: "pykey \<rightharpoonup> string set"
  by_value :: "pykey \<rightharpoonup> string set"
  by_class :: "pykey \<rightharpoonup> string set"
  by_attr_value :: "pykey \<rightharpoonup> string set"
  by_class_value :: "pykey \<rightharpoonup> string set"
  by_class_attr :: "pykey \<rightharpoonup> string set"
  by_class_attr_value :: "pykey \<rightharpoonup> string set"
  ranked_items :: "string \<rightharpoonup> rank_item"

definition init :: index where
  "init = \<lparr>by_attr = Map.empty, by_value = Map.empty, by_class = Map.empty,
           by_attr_value = Map.empty, by_class_value = Map.empty,
           by_class_attr = Map.empty, by_class_attr_value = Map.empty,
           ranked_items = Map.empty\<rparr>"

text \<open>
  \<open>if k not in d: d[k] = set([])\<close> followed by \<open>d[k].add(uid)\<close>.
\<close>

definition add_uid :: "(pykey \<rightharpoonup> string set) \<Rightarrow> pykey \<Rightarrow> string \<Rightarrow> (pykey \<rightharpoonup> string set)" where
  "add_uid d k u =
     (let d' = (if k \<notin> dom d then d(k \<mapsto> {}) else d)
      in d'(k \<mapsto> insert u (case d' k of Some ids \<Rightarrow> ids | None \<Rightarrow> {})))"

text \<open>The body of the loop over the searchables, for one of them.\<close>

definition index_attr :: "string \<Rightarrow> string \<Rightarrow> string \<Rightarrow> index \<Rightarrow> index" where
  "index_attr atk_class u atk_attr s =
     s\<lparr>by_attr := add_uid (by_attr s) (Str atk_attr) u,
       by_class_attr := add_uid (by_class_attr s) (Tup2 atk_class atk_attr) u\<rparr>"

definition index_value :: "string \<Rightarrow> string \<Rightarrow> string \<Rightarrow> index \<Rightarrow> index" where
  "index_value atk_class u atk_value s =
     s\<lparr>by_value := add_uid (by_value s) (Str atk_value) u,
       by_class_value := add_uid (by_class_value s) (Tup2 atk_class atk_value) u\<rparr>"

definition index_attr_value :: "string \<Rightarrow> string \<Rightarrow> string \<times> string \<Rightarrow> index \<Rightarrow> index" where
  "index_attr_value atk_class u atk_attr_value s =
     (case atk_attr_value of (atk_attr, atk_value) \<Rightarrow>
        s\<lparr>by_attr_value := add_uid (by_attr_value s) (Tup2 atk_attr atk_value) u,
          by_class_attr_value :=
            add_uid (by_class_attr_value s) (Tup3 atk_class atk_attr atk_value) u\<rparr>)"

definition index_searchable :: "searchable \<Rightarrow> index \<Rightarrow> index" where
  "index_searchable r s =
     (let atk_class = object_class r;
          u = dn r;
          s1 = s\<lparr>by_class := add_uid (by_class s) (Str atk_class) u\<rparr>;
          s2 = fold (index_attr atk_class u) (attr r) s1;
          s3 = fold (index_value atk_class u) (value' r) s2
      in fold (index_attr_value atk_class u) (attr_value r) s3)"

text \<open>
  \<open>_index_searchables\<close>: the seven dictionaries are assigned empty ones, then every
  searchable is indexed. The counter and the elapsed time it prints are left out.
\<close>

definition index_searchables :: "index \<Rightarrow> searchable list \<Rightarrow> index" where
  "index_searchables s searchables =
     fold index_searchable searchables
       (s\<lparr>by_attr := Map.empty, by_value := Map.empty, by_attr_value := Map.empty,
          by_class := Map.empty, by_class_value := Map.empty,
          by_class_attr := Map.empty, by_class_attr_value := Map.empty\<rparr>)"

section \<open>Searching and ranking\<close>

text \<open>
  \<open>str.strip()\<close> removes the leading and trailing whitespace of a byte string;
  \<open>str.split(' ')\<close> cuts at every single space and keeps the empty pieces.
\<close>

definition is_space :: "char \<Rightarrow> bool" where
  "is_space c \<longleftrightarrow> c \<in> set [CHR '' '', CHR 0x09, CHR 0x0A, CHR 0x0B, CHR 0x0C, CHR 0x0D]"

definition strip :: "string \<Rightarrow> string" where
  "strip s = rev (dropWhile is_space (rev (dropWhile is_space s)))"

fun split :: "char \<Rightarrow> string \<Rightarrow> string list" where
  "split sep [] = [[]]"
| "split sep (c # cs) =
     (if c = sep then [] # split sep cs
      else (case split sep cs of
              w # ws \<Rightarrow> (c # w) # ws
            | [] \<Rightarrow> [[c]]))"

text \<open>
  The loop of \<open>_get_terms\<close>: the Terms of every piece, in order; the exception of the
  first piece that \<open>parse_input\<close> refuses ends it.
\<close>

fun extend_terms :: "string list \<Rightarrow> error + Term list" where
  "extend_terms [] = Inr []"
| "extend_terms (t # ts) =
     (case parse_input t of
        Inl e \<Rightarrow> Inl e
      | Inr r \<Rightarrow> (case extend_terms ts of Inl e \<Rightarrow> Inl e | Inr rs \<Rightarrow> Inr (r @ rs)))"

definition get_terms :: "string \<Rightarrow> error + Term list" where
  "get_terms term_string = extend_terms (split CHR '' '' (strip term_string))"

text \<open>
  The body of the loop of \<open>search\<close> for one Term: seven independent tests of its type,
  each appending the Term with what \<open>dict.get\<close> returns (\<open>None\<close> for a missing key).
\<close>

definition lookup_term :: "index \<Rightarrow> Term \<Rightarrow> (Term \<times> string set option) list" where
  "lookup_term s t =
     (if term_type t = ''cav'' then [(t, by_class_attr_value s (key t))] else []) @
     (if term_type t = ''ca'' then [(t, by_class_attr s (key t))] else []) @
     (if term_type t = ''cv'' then [(t, by_class_value s (key t))] else []) @
     (if term_type t = ''av'' then [(t, by_attr_value s (key t))] else []) @
     (if term_type t = ''c'' then [(t, by_class s (key t))] else []) @
     (if term_type t = ''a'' then [(t, by_attr s (key t))] else []) @
     (if term_type t = ''v'' then [(t, by_value s (key t))] else [])"

text \<open>The first loop of \<open>_rank_results\<close>: the union of the match sets that are not None.\<close>

definition master_items :: "(Term \<times> string set option) list \<Rightarrow> string set" where
  "master_items unranked_results =
     fold (\<lambda>results m. case snd results of None \<Rightarrow> m | Some ids \<Rightarrow> m \<union> ids)
       unranked_results {}"

text \<open>
  The scoring loop for one item of \<open>master_items\<close>, from its fresh entry: every result
  that holds the item adds its points and the string of its key. \<open>str_of\<close> is
  Python's \<open>str\<close> on a key.
\<close>

definition score_step ::
  "(pykey \<Rightarrow> string) \<Rightarrow> string \<Rightarrow> Term \<times> string set option \<Rightarrow> rank_item \<Rightarrow> rank_item" where
  "score_step str_of atk_obj result it =
     (case snd result of
        None \<Rightarrow> it
      | Some ids \<Rightarrow>
          if atk_obj \<in> ids
          then it\<lparr>pscore := pscore it + points (fst result),
                  terms := insert (str_of (key (fst result))) (terms it)\<rparr>
          else it)"

definition score_item ::
  "(pykey \<Rightarrow> string) \<Rightarrow> (Term \<times> string set option) list \<Rightarrow> string \<Rightarrow> rank_item" where
  "score_item str_of unranked_results atk_obj =
     fold (score_step str_of atk_obj) unranked_results \<lparr>pscore = 0, sscore = 0, terms = {}\<rparr>"

text \<open>
  What \<open>self.ranked_items[x]\<close> reads; every key read by \<open>_rank_results\<close> is one it has
  stored.
\<close>

definition getitem :: "(string \<rightharpoonup> rank_item) \<Rightarrow> string \<Rightarrow> rank_item" where
  "getitem d x = (case d x of Some it \<Rightarrow> it | None \<Rightarrow> \<lparr>pscore = 0, sscore = 0, terms = {}\<rparr>)"

text \<open>
  \<open>_rank_results\<close>. The items are sorted on \<open>(-pscore, -sscore, x)\<close>; the ids are
  distinct, so the order in which the dictionary enumerates them does not show, and the
  enumeration is taken in ascending order. The loop with its \<open>break\<close> keeps the first
  100. The list made of the set terms is kept as a set, its order being unspecified.
\<close>

definition rank_results ::
  "(pykey \<Rightarrow> string) \<Rightarrow> index \<Rightarrow> (Term \<times> string set option) list
     \<Rightarrow> (ranked list \<times> nat) \<times> index" where
  "rank_results str_of s unranked_results =
     (let m = master_items unranked_results;
          d = (\<lambda>item. if item \<in> m then Some (score_item str_of unranked_results item)
                       else None);
          order = sort_key (\<lambda>x. (- pscore (getitem d x), - sscore (getitem d x), x))
                    (sorted_list_of_set m);
          resp = map (\<lambda>result. \<lparr>pscore = pscore (getitem d result),
                                 sscore = sscore (getitem d result),
                                 terms = terms (getitem d result),
                                 uid = result\<rparr>)
                   (take 100 order)
      in ((resp, card m), s\<lparr>ranked_items := d\<rparr>))"

text \<open>
  \<open>search\<close>: the result or the exception, and the state of the object afterwards.
\<close>

definition search ::
  "(pykey \<Rightarrow> string) \<Rightarrow> index \<Rightarrow> string \<Rightarrow> (error + ranked list \<times> nat) \<times> index" where
  "search str_of s term_string =
     (case get_terms term_string of
        Inl e \<Rightarrow> (Inl e, s)
      | Inr ts \<Rightarrow>
          (case rank_results str_of s (concat (map (lookup_term s) ts)) of
             (results2, s') \<Rightarrow> (Inr results2, s')))"

section \<open>The specification's reading of the parser\<close>

text \<open>
  The disambiguation table of the specification, row by row in its priority order, on
  the validity of the class, attribute, value and wildcard segments and on the segments
  themselves. An earlier equation wins, and a dash of the table is a row that does not
  look at that segment.
\<close>

fun disambiguation_table ::
  "bool \<Rightarrow> bool \<Rightarrow> bool \<Rightarrow> bool \<Rightarrow> string \<Rightarrow> string \<Rightarrow> string \<Rightarrow> string \<Rightarrow> Term list" where
  "disambiguation_table True True True _ c a v y = [cls (Tup3 c a v) ''cav'' 8]"
| "disambiguation_table True True _ True c a v y = [cls (Tup3 c a y) ''cav'' 6]"
| "disambiguation_table True True _ _ c a v y = [cls (Tup2 c a) ''ca'' 4]"
| "disambiguation_table True _ True True c a v y = [cls (Tup3 c y v) ''cav'' 6]"
| "disambiguation_table True _ True _ c a v y = [cls (Tup2 c v) ''cv'' 4]"
| "disambiguation_table True _ _ True c a v y =
     [cls (Tup2 c y) ''ca'' 3, cls (Tup2 c y) ''cv'' 3]"
| "disambiguation_table _ True True True c a v y = [cls (Tup3 y a v) ''cav'' 6]"
| "disambiguation_table _ True True _ c a v y = [cls (Tup2 a v) ''av'' 4]"
| "disambiguation_table _ True _ True c a v y =
     [cls (Tup2 y a) ''ca'' 3, cls (Tup2 a y) ''av'' 3]"
| "disambiguation_table _ _ True True c a v y =
     [cls (Tup2 y v) ''cv'' 3, cls (Tup2 y v) ''av'' 3]"
| "disambiguation_table True _ _ _ c a v y = [cls (Str c) ''c'' 2]"
| "disambiguation_table _ True _ _ c a v y = [cls (Str a) ''a'' 2]"
| "disambiguation_table _ _ True _ c a v y = [cls (Str v) ''v'' 2]"
| "disambiguation_table _ _ _ True c a v y =
     [cls (Str y) ''c'' 1, cls (Str y) ''a'' 1, cls (Str y) ''v'' 1]"
| "disambiguation_table _ _ _ _ c a v y = []"

text \<open>
  The token with the star that the specification prepends when the first character is
  none of the four markers.
\<close>

definition implied_token :: "string \<Rightarrow> string" where
  "implied_token token =
     (case token of
        [] \<Rightarrow> ''*''
      | c # _ \<Rightarrow> if is_marker c then token else CHR ''*'' # token)"

text \<open>The Terms that the table gives for the segments of a token.\<close>

definition table_terms :: "string \<Rightarrow> Term list" where
  "table_terms token =
     (let s = implied_token token
      in disambiguation_table
           (fst (build_search_term class_escape s)) (fst (build_search_term attr_escape s))
           (fst (build_search_term value_escape s)) (fst (build_search_term any_escape s))
           (snd (build_search_term class_escape s)) (snd (build_search_term attr_escape s))
           (snd (build_search_term value_escape s)) (snd (build_search_term any_escape s)))"

text \<open>
  The segment of a marker as the specification words it: what follows the marker, up to
  the next marker or the end of the token.
\<close>

definition segment :: "char \<Rightarrow> string \<Rightarrow> string" where
  "segment m s = takeWhile (\<lambda>x. \<not> is_marker x) (tl (dropWhile (\<lambda>x. x \<noteq> m) s))"

section \<open>The specification's reading of the index and of the ranking\<close>

text \<open>The seven index tables of a state.\<close>

definition tables :: "index \<Rightarrow> (pykey \<rightharpoonup> string set) list" where
  "tables s = [by_attr s, by_value s, by_class s, by_attr_value s, by_class_value s,
               by_class_attr s, by_class_attr_value s]"

text \<open>The ids that a table holds under a key, none under a missing key.\<close>

definition ids_under :: "(pykey \<rightharpoonup> string set) \<Rightarrow> pykey \<Rightarrow> string set" where
  "ids_under d k = (case d k of Some ids \<Rightarrow> ids | None \<Rightarrow> {})"

text \<open>
  The keys that a record produces for each table: its class; each attribute, alone and
  with the class; each value, alone and with the class; each (attribute, value) pair,
  alone and with the class.
\<close>

definition class_keys :: "searchable \<Rightarrow> pykey list" where
  "class_keys r = [Str (object_class r)]"

definition attr_keys :: "searchable \<Rightarrow> pykey list" where
  "attr_keys r = map Str (attr r)"

definition class_attr_keys :: "searchable \<Rightarrow> pykey list" where
  "class_attr_keys r = map (Tup2 (object_class r)) (attr r)"

definition value_keys :: "searchable \<Rightarrow> pykey list" where
  "value_keys r = map Str (value' r)"

definition class_value_keys :: "searchable \<Rightarrow> pykey list" where
  "class_value_keys r = map (Tup2 (object_class r)) (value' r)"

definition attr_value_keys :: "searchable \<Rightarrow> pykey list" where
  "attr_value_keys r = map (\<lambda>(a, v). Tup2 a v) (attr_value r)"

definition class_attr_value_keys :: "searchable \<Rightarrow> pykey list" where
  "class_attr_value_keys r = map (\<lambda>(a, v). Tup3 (object_class r) a v) (attr_value r)"

text \<open>
  The entry of a table under a key, for a record set: the ids of the records that
  produce the key, and no entry when no record does.
\<close>

definition entry :: "(searchable \<Rightarrow> pykey list) \<Rightarrow> searchable list \<Rightarrow> pykey \<rightharpoonup> string set" where
  "entry keys R k =
     (if \<exists>r\<in>set R. k \<in> set (keys r)
      then Some (dn ` {r \<in> set R. k \<in> set (keys r)}) else None)"

text \<open>The table that a kind selects; a string that is no kind selects none.\<close>

definition table_of :: "index \<Rightarrow> string \<Rightarrow> (pykey \<rightharpoonup> string set)" where
  "table_of s kind =
     (if kind = ''cav'' then by_class_attr_value s
      else if kind = ''ca'' then by_class_attr s
      else if kind = ''cv'' then by_class_value s
      else if kind = ''av'' then by_attr_value s
      else if kind = ''c'' then by_class s
      else if kind = ''a'' then by_attr s
      else if kind = ''v'' then by_value s
      else Map.empty)"

text \<open>
  The match set of a Term: what its table holds under its key; a miss contributes
  nothing. The candidates of a list of Terms are the union of their match sets.
\<close>

definition hits :: "index \<Rightarrow> Term \<Rightarrow> string set" where
  "hits s t = ids_under (table_of s (term_type t)) (key t)"

definition candidates :: "index \<Rightarrow> Term list \<Rightarrow> string set" where
  "candidates s ts = (\<Union>t\<in>set ts. hits s t)"

text \<open>
  The primary score of an id: the sum of the weights of the Terms whose match set holds
  it. Its matched term keys: the strings of the keys of those Terms.
\<close>

definition primary_score :: "index \<Rightarrow> Term list \<Rightarrow> string \<Rightarrow> int" where
  "primary_score s ts x = (\<Sum>t\<leftarrow>ts. if x \<in> hits s t then points t else 0)"

definition matched_term_keys :: "(pykey \<Rightarrow> string) \<Rightarrow> index \<Rightarrow> Term list \<Rightarrow> string \<Rightarrow> string set" where
  "matched_term_keys str_of s ts x = set (map (\<lambda>t. str_of (key t)) (filter (\<lambda>t. x \<in> hits s t) ts))"

text \<open>
  The sort key of a result: highest primary score first, then highest secondary score,
  then ascending id. Pairs are compared lexicographically, and so are strings,
  character by character.
\<close>

definition rank_key :: "ranked \<Rightarrow> int \<times> int \<times> string" where
  "rank_key r = (- pscore r, - sscore r, uid r)"

text \<open>The whole ranking of the candidates, before it is cut to the first 100.\<close>

definition ranked_of :: "(pykey \<Rightarrow> string) \<Rightarrow> index \<Rightarrow> Term list \<Rightarrow> string \<Rightarrow> ranked" where
  "ranked_of str_of s ts x =
     \<lparr>pscore = primary_score s ts x, sscore = 0,
      terms = matched_term_keys str_of s ts x, uid = x\<rparr>"

definition ranking :: "(pykey \<Rightarrow> string) \<Rightarrow> index \<Rightarrow> Term list \<Rightarrow> ranked list" where
  "ranking str_of s ts =
     sort_key rank_key (map (ranked_of str_of s ts) (sorted_list_of_set (candidates s ts)))"

text \<open>Adding the id of a record under each of the keys that it produces for a table.\<close>

definition add_keys ::
  "(searchable \<Rightarrow> pykey list) \<Rightarrow> searchable \<Rightarrow> (pykey \<rightharpoonup> string set) \<Rightarrow> (pykey \<rightharpoonup> string set)" where
  "add_keys keys r d = fold (\<lambda>k d. add_uid d k (dn r)) (keys r) d"

section \<open>Example records\<close>

text \<open>
  Two tenants: one called \<open>name\<close>, so that its attribute \<open>name\<close> has the value \<open>name\<close>,
  and one called \<open>APP1\<close>; and a record set of \<open>n\<close> tenants with distinct ids.
\<close>

definition tenant_name :: searchable where
  "tenant_name =
     \<lparr>object_class = ''Tenant'', attr = [''name''], value' = [''name''],
      attr_value = [(''name'', ''name'')], dn = ''uni/tn-name''\<rparr>"

definition tenant_app1 :: searchable where
  "tenant_app1 =
     \<lparr>object_class = ''Tenant'', attr = [''name''], value' = [''APP1''],
      attr_value = [(''name'', ''APP1'')], dn = ''uni/tn-APP1''\<rparr>"

definition tenants :: "nat \<Rightarrow> searchable list" where
  "tenants n =
     map (\<lambda>i. \<lparr>object_class = ''Tenant'', attr = [], value' = [], attr_value = [],
                dn = replicate i CHR ''t''\<rparr>) [0..<n]"

section \<open>Properties of the parser\<close>

lemma re_search_mid_star:
  "re_search_mid e (CHR ''*'' # CHR ''*'' # cs) = re_search_mid e (CHR ''*'' # cs)"
  by (simp add: is_marker_def)

lemma re_search_end_star:
  "re_search_end e (CHR ''*'' # CHR ''*'' # cs) = re_search_end e (CHR ''*'' # cs)"
  by (simp add: is_marker_def)

lemma build_search_term_star:
  "build_search_term e (CHR ''*'' # CHR ''*'' # cs) = build_search_term e (CHR ''*'' # cs)"
  unfolding build_search_term_def re_search_mid_star re_search_end_star ..

lemma branches_table:
  "(if cv \<and> av \<and> vv then [cls (Tup3 cs as vs) ''cav'' 8]
    else if cv \<and> av then
      (if yv then [cls (Tup3 cs as ys) ''cav'' 6] else [cls (Tup2 cs as) ''ca'' 4])
    else if cv \<and> vv then
      (if yv then [cls (Tup3 cs ys vs) ''cav'' 6] else [cls (Tup2 cs vs) ''cv'' 4])
    else if cv \<and> yv then [cls (Tup2 cs ys) ''ca'' 3, cls (Tup2 cs ys) ''cv'' 3]
    else if av \<and> vv then
      (if yv then [cls (Tup3 ys as vs) ''cav'' 6] else [cls (Tup2 as vs) ''av'' 4])
    else if av \<and> yv then [cls (Tup2 ys as) ''ca'' 3, cls (Tup2 as ys) ''av'' 3]
    else if vv \<and> yv then [cls (Tup2 ys vs) ''cv'' 3, cls (Tup2 ys vs) ''av'' 3]
    else if cv then [cls (Str cs) ''c'' 2]
    else if av then [cls (Str as) ''a'' 2]
    else if vv then [cls (Str vs) ''v'' 2]
    else if yv then [cls (Str ys) ''c'' 1, cls (Str ys) ''a'' 1, cls (Str ys) ''v'' 1]
    else [])
   = disambiguation_table cv av vv yv cs as vs ys"
  by (cases cv; cases av; cases vv; cases yv) simp_all

lemma new_string_implied:
  "build_search_term e
     (if [c] \<notin> set [any_escape, class_escape, attr_escape, value_escape]
      then ''*'' @ (c # cs) else c # cs)
   = build_search_term e (implied_token (c # cs))"
  by (auto simp: implied_token_def is_marker_def any_escape_def class_escape_def
        attr_escape_def value_escape_def build_search_term_star)

lemma parse_input_table_terms:
  "token \<noteq> [] \<Longrightarrow> parse_input token = Inr (table_terms token)"
proof (cases token)
  case Nil
  assume "token \<noteq> []"
  with Nil show ?thesis by simp
next
  case (Cons c cs)
  show ?thesis
    unfolding parse_input_def table_terms_def Cons list.case Let_def new_string_implied
    by (simp add: case_prod_beta branches_table)
qed

lemma re_search_absent:
  "e \<notin> set s \<Longrightarrow> re_search_mid e s = None \<and> re_search_end e s = None"
  by (induction s) auto

lemma build_search_term_absent:
  "re_literal e \<notin> set s \<Longrightarrow> build_search_term e s = (False, '''')"
  by (simp add: build_search_term_def re_search_absent)

lemma takeWhile_all: "list_all P xs \<Longrightarrow> takeWhile P xs = xs \<and> dropWhile P xs = []"
  by (induction xs) auto

lemma build_search_term_bare:
  assumes "list_all (\<lambda>c. \<not> is_marker c) token"
  shows "build_search_term any_escape (CHR ''*'' # token) = (token \<noteq> [], token)"
proof -
  have "CHR ''*'' \<notin> set token"
    using assms by (auto simp: list_all_iff is_marker_def)
  then have "re_search_mid CHR ''*'' token = None"
    by (simp add: re_search_absent)
  then show ?thesis
    using assms takeWhile_all [OF assms]
    by (simp add: build_search_term_def re_literal_def any_escape_def)
qed

lemma parse_input_bare:
  assumes "token \<noteq> []" and "list_all (\<lambda>c. \<not> is_marker c) token"
  shows "parse_input token =
           Inr [cls (Str token) ''c'' 1, cls (Str token) ''a'' 1, cls (Str token) ''v'' 1]"
proof -
  obtain c cs where tok: "token = c # cs"
    using assms(1) by (cases token) auto
  have nm: "\<not> is_marker c"
    using assms(2) tok by simp
  have imp: "implied_token token = CHR ''*'' # token"
    using nm by (simp add: implied_token_def tok)
  have absent: "CHR ''#'' \<notin> set (CHR ''*'' # token)" "CHR ''@'' \<notin> set (CHR ''*'' # token)"
    "CHR ''='' \<notin> set (CHR ''*'' # token)"
    using assms(2) by (auto simp: list_all_iff is_marker_def)
  have c: "build_search_term class_escape (CHR ''*'' # token) = (False, '''')"
    by (rule build_search_term_absent) (use absent in \<open>simp add: re_literal_def class_escape_def\<close>)
  have a: "build_search_term attr_escape (CHR ''*'' # token) = (False, '''')"
    by (rule build_search_term_absent) (use absent in \<open>simp add: re_literal_def attr_escape_def\<close>)
  have v: "build_search_term value_escape (CHR ''*'' # token) = (False, '''')"
    by (rule build_search_term_absent) (use absent in \<open>simp add: re_literal_def value_escape_def\<close>)
  show ?thesis
    using assms(1)
    by (simp add: parse_input_table_terms table_terms_def imp c a v
          build_search_term_bare [OF assms(2)])
qed

text \<open>
  Where the marker occurs at most once in the string, \<open>build_search_term\<close> gives the
  segment of the specification, valid when it is not empty.
\<close>

lemma build_search_term_segment:
  "count_list s (re_literal e) \<le> 1 \<Longrightarrow>
   build_search_term e s = (segment (re_literal e) s \<noteq> [], segment (re_literal e) s)"
proof (induction s)
  case Nil
  then show ?case by (simp add: build_search_term_def segment_def)
next
  case (Cons c cs)
  show ?case
  proof (cases "c = re_literal e")
    case True
    with Cons.prems have "re_literal e \<notin> set cs"
      by (auto simp: count_list_0_iff)
    then have none: "re_search_mid (re_literal e) cs = None" "re_search_end (re_literal e) cs = None"
      by (simp_all add: re_search_absent)
    have seg: "segment (re_literal e) (c # cs) = takeWhile (\<lambda>x. \<not> is_marker x) cs"
      using True by (simp add: segment_def)
    show ?thesis
    proof (cases "list_all (\<lambda>x. \<not> is_marker x) cs")
      case all: True
      then show ?thesis
        using True none seg takeWhile_all [OF all]
        by (simp add: build_search_term_def)
    next
      case False
      then have "dropWhile (\<lambda>x. \<not> is_marker x) cs \<noteq> []"
        by (simp add: list_all_iff)
      with False show ?thesis
        using True none seg by (simp add: build_search_term_def)
    qed
  next
    case False
    with Cons.prems have "count_list cs (re_literal e) \<le> 1" by simp
    note IH = Cons.IH [OF this]
    have m: "re_search_mid (re_literal e) (c # cs) = re_search_mid (re_literal e) cs"
      and n: "re_search_end (re_literal e) (c # cs) = re_search_end (re_literal e) cs"
      using False by simp_all
    have "build_search_term e (c # cs) = build_search_term e cs"
      unfolding build_search_term_def m n ..
    moreover have "segment (re_literal e) (c # cs) = segment (re_literal e) cs"
      using False by (simp add: segment_def)
    ultimately show ?thesis
      using IH by simp
  qed
qed

text \<open>
  C1. For every token (a non-empty string), \<open>parse_input\<close> returns the Terms that the
  disambiguation table gives, first matching row first, for the validity of the class,
  attribute, value and wildcard segments of the token with its implied star. A bare
  token, with no marker in it, gives the three Terms of kinds c, a and v, each with
  weight 1 and the token as key. The token \<open>#Tenant@name=APP1\<close> gives the one cav Term
  of weight 8.
\<close>

theorem parse_input_disambiguation:
  assumes "token \<noteq> []"
  shows "parse_input token = Inr (table_terms token)
       \<and> (list_all (\<lambda>c. \<not> is_marker c) token \<longrightarrow>
            parse_input token =
              Inr [\<lparr>key = Str token, term_type = ''c'', points = 1\<rparr>,
                   \<lparr>key = Str token, term_type = ''a'', points = 1\<rparr>,
                   \<lparr>key = Str token, term_type = ''v'', points = 1\<rparr>])
       \<and> parse_input ''#Tenant@name=APP1'' =
            Inr [\<lparr>key = Tup3 ''Tenant'' ''name'' ''APP1'', term_type = ''cav'', points = 8\<rparr>]"
proof (intro conjI impI)
  show "parse_input token = Inr (table_terms token)"
    using assms by (rule parse_input_table_terms)
  show "parse_input ''#Tenant@name=APP1'' =
         Inr [\<lparr>key = Tup3 ''Tenant'' ''name'' ''APP1'', term_type = ''cav'', points = 8\<rparr>]"
    by (simp add: parse_input_def build_search_term_def re_literal_def any_escape_def
          class_escape_def attr_escape_def value_escape_def is_marker_def cls_def)
next
  assume "list_all (\<lambda>c. \<not> is_marker c) token"
  with assms show "parse_input token =
      Inr [\<lparr>key = Str token, term_type = ''c'', points = 1\<rparr>,
           \<lparr>key = Str token, term_type = ''a'', points = 1\<rparr>,
           \<lparr>key = Str token, term_type = ''v'', points = 1\<rparr>]"
    by (simp add: parse_input_bare cls_def)
qed

theorem parse_input_disambiguation_witness:
  "''leaf'' \<noteq> [] \<and> list_all (\<lambda>c. \<not> is_marker c) ''leaf''
   \<and> table_terms ''leaf'' =
       [\<lparr>key = Str ''leaf'', term_type = ''c'', points = 1\<rparr>,
        \<lparr>key = Str ''leaf'', term_type = ''a'', points = 1\<rparr>,
        \<lparr>key = Str ''leaf'', term_type = ''v'', points = 1\<rparr>]
   \<and> parse_input ''leaf'' =
       Inr [\<lparr>key = Str ''leaf'', term_type = ''c'', points = 1\<rparr>,
            \<lparr>key = Str ''leaf'', term_type = ''a'', points = 1\<rparr>,
            \<lparr>key = Str ''leaf'', term_type = ''v'', points = 1\<rparr>]"
proof -
  have ne: "''leaf'' \<noteq> []" by simp
  have bare: "list_all (\<lambda>c. \<not> is_marker c) ''leaf''" by (simp add: is_marker_def)
  from parse_input_disambiguation [OF ne] bare ne show ?thesis
    by auto
qed

text \<open>
  C3, as the code has it. The token \<open>#Tenant*\<close> gives exactly one Term, of kind c, key
  \<open>Tenant\<close> and weight 2: the wildcard marker at the end has an empty segment, which is
  not valid, so the row of a class alone applies.
\<close>

theorem parse_input_trailing_wildcard:
  "parse_input ''#Tenant*'' = Inr [\<lparr>key = Str ''Tenant'', term_type = ''c'', points = 2\<rparr>]
   \<and> build_search_term any_escape ''#Tenant*'' = (False, '''')"
  by (simp add: parse_input_def build_search_term_def re_literal_def any_escape_def
        class_escape_def attr_escape_def value_escape_def is_marker_def cls_def)

text \<open>
  The two Terms of kinds ca and cv with key \<open>(Tenant, '')\<close> and weight 3 are not what
  \<open>#Tenant*\<close> parses to.
\<close>

theorem parse_input_trailing_wildcard_counterexample:
  "parse_input ''#Tenant*'' \<noteq>
     Inr [\<lparr>key = Tup2 ''Tenant'' '''', term_type = ''ca'', points = 3\<rparr>,
          \<lparr>key = Tup2 ''Tenant'' '''', term_type = ''cv'', points = 3\<rparr>]"
  by (simp add: parse_input_def build_search_term_def re_literal_def any_escape_def
        class_escape_def attr_escape_def value_escape_def is_marker_def cls_def)

text \<open>
  C2, at the empty query. \<open>strip\<close> and \<open>split\<close> leave the one empty piece, and
  \<open>parse_input\<close> raises IndexError on it: after any build, \<open>search\<close> on the empty
  string ends with that exception and no result.
\<close>

theorem search_empty_query_raises:
  "fst (search str_of (index_searchables s searchables) '''') = Inl IndexError
   \<and> split CHR '' '' (strip '''') = ['''']
   \<and> parse_input '''' = Inl IndexError"
  by (simp add: search_def get_terms_def strip_def parse_input_def)

section \<open>Properties of the index builder\<close>

lemma add_uid_apply:
  "add_uid d k u k' = (if k' = k then Some (insert u (ids_under d k)) else d k')"
  by (auto simp: add_uid_def ids_under_def Let_def split: option.splits)

lemma ids_under_add_uid:
  "ids_under (add_uid d k u) k' = (if k' = k then insert u (ids_under d k) else ids_under d k')"
  by (simp add: ids_under_def [of "add_uid d k u"] add_uid_apply) (simp add: ids_under_def)

lemma fold_add_uid_ids:
  "ids_under (fold (\<lambda>k d. add_uid d k u) ks d) k' =
     (if k' \<in> set ks then insert u (ids_under d k') else ids_under d k')"
  by (induction ks arbitrary: d) (auto simp: ids_under_add_uid)

lemma fold_add_uid_apply:
  "fold (\<lambda>k d. add_uid d k u) ks d k' =
     (if k' \<in> set ks then Some (insert u (ids_under d k')) else d k')"
proof (induction ks arbitrary: d)
  case Nil
  show ?case by simp
next
  case (Cons k ks)
  have "fold (\<lambda>k d. add_uid d k u) (k # ks) d k' =
          fold (\<lambda>k d. add_uid d k u) ks (add_uid d k u) k'"
    by simp
  also have "\<dots> = (if k' \<in> set ks then Some (insert u (ids_under (add_uid d k u) k'))
                    else add_uid d k u k')"
    by (rule Cons.IH)
  also have "\<dots> = (if k' \<in> set (k # ks) then Some (insert u (ids_under d k')) else d k')"
    by (auto simp: ids_under_add_uid add_uid_apply)
  finally show ?case .
qed

text \<open>The three inner loops, table by table.\<close>

lemma fold_index_attr:
  "fold (index_attr c u) as s =
     s\<lparr>by_attr := fold (\<lambda>k d. add_uid d k u) (map Str as) (by_attr s),
       by_class_attr := fold (\<lambda>k d. add_uid d k u) (map (Tup2 c) as) (by_class_attr s)\<rparr>"
  by (induction as arbitrary: s) (simp_all add: index_attr_def)

lemma fold_index_value:
  "fold (index_value c u) vs s =
     s\<lparr>by_value := fold (\<lambda>k d. add_uid d k u) (map Str vs) (by_value s),
       by_class_value := fold (\<lambda>k d. add_uid d k u) (map (Tup2 c) vs) (by_class_value s)\<rparr>"
  by (induction vs arbitrary: s) (simp_all add: index_value_def)

lemma fold_index_attr_value:
  "fold (index_attr_value c u) avs s =
     s\<lparr>by_attr_value :=
         fold (\<lambda>k d. add_uid d k u) (map (\<lambda>(a, v). Tup2 a v) avs) (by_attr_value s),
       by_class_attr_value :=
         fold (\<lambda>k d. add_uid d k u) (map (\<lambda>(a, v). Tup3 c a v) avs) (by_class_attr_value s)\<rparr>"
  by (induction avs arbitrary: s) (simp_all add: index_attr_value_def split: prod.splits)

lemma index_searchable_tables:
  "by_class (index_searchable r s) = add_keys class_keys r (by_class s)"
  "by_attr (index_searchable r s) = add_keys attr_keys r (by_attr s)"
  "by_class_attr (index_searchable r s) = add_keys class_attr_keys r (by_class_attr s)"
  "by_value (index_searchable r s) = add_keys value_keys r (by_value s)"
  "by_class_value (index_searchable r s) = add_keys class_value_keys r (by_class_value s)"
  "by_attr_value (index_searchable r s) = add_keys attr_value_keys r (by_attr_value s)"
  "by_class_attr_value (index_searchable r s) =
     add_keys class_attr_value_keys r (by_class_attr_value s)"
  "ranked_items (index_searchable r s) = ranked_items s"
  by (simp_all add: index_searchable_def Let_def fold_index_attr fold_index_value
        fold_index_attr_value add_keys_def class_keys_def attr_keys_def class_attr_keys_def
        value_keys_def class_value_keys_def attr_value_keys_def class_attr_value_keys_def)

lemma fold_index_searchable_tables:
  "by_class (fold index_searchable R s) = fold (add_keys class_keys) R (by_class s)"
  "by_attr (fold index_searchable R s) = fold (add_keys attr_keys) R (by_attr s)"
  "by_class_attr (fold index_searchable R s) = fold (add_keys class_attr_keys) R (by_class_attr s)"
  "by_value (fold index_searchable R s) = fold (add_keys value_keys) R (by_value s)"
  "by_class_value (fold index_searchable R s) =
     fold (add_keys class_value_keys) R (by_class_value s)"
  "by_attr_value (fold index_searchable R s) = fold (add_keys attr_value_keys) R (by_attr_value s)"
  "by_class_attr_value (fold index_searchable R s) =
     fold (add_keys class_attr_value_keys) R (by_class_attr_value s)"
  "ranked_items (fold index_searchable R s) = ranked_items s"
  by (induction R arbitrary: s) (simp_all add: index_searchable_tables)

lemma add_keys_ids:
  "ids_under (add_keys keys r d) k =
     (if k \<in> set (keys r) then insert (dn r) (ids_under d k) else ids_under d k)"
  by (simp add: add_keys_def fold_add_uid_ids)

lemma add_keys_apply:
  "add_keys keys r d k =
     (if k \<in> set (keys r) then Some (insert (dn r) (ids_under d k)) else d k)"
  by (simp add: add_keys_def fold_add_uid_apply)

lemma fold_add_keys_ids:
  "ids_under (fold (add_keys keys) R d) k =
     dn ` {r \<in> set R. k \<in> set (keys r)} \<union> ids_under d k"
  by (induction R arbitrary: d) (auto simp: add_keys_ids)

lemma fold_add_keys_apply:
  "fold (add_keys keys) R d k =
     (if \<exists>r\<in>set R. k \<in> set (keys r)
      then Some (dn ` {r \<in> set R. k \<in> set (keys r)} \<union> ids_under d k) else d k)"
proof (induction R arbitrary: d)
  case Nil
  show ?case by simp
next
  case (Cons r R)
  have "fold (add_keys keys) (r # R) d k = fold (add_keys keys) R (add_keys keys r d) k"
    by simp
  also have "\<dots> =
      (if \<exists>r\<in>set R. k \<in> set (keys r)
       then Some (dn ` {r \<in> set R. k \<in> set (keys r)} \<union> ids_under (add_keys keys r d) k)
       else add_keys keys r d k)"
    by (rule Cons.IH)
  also have "\<dots> =
      (if \<exists>x\<in>set (r # R). k \<in> set (keys x)
       then Some (dn ` {x \<in> set (r # R). k \<in> set (keys x)} \<union> ids_under d k) else d k)"
  proof (cases "\<exists>r\<in>set R. k \<in> set (keys r)")
    case True
    then show ?thesis
      by (auto simp: add_keys_ids)
  next
    case False
    then have "{r \<in> set R. k \<in> set (keys r)} = {}" by auto
    with False show ?thesis
      by (auto simp: add_keys_apply)
  qed
  finally show ?case .
qed

lemma fold_add_keys_empty: "fold (add_keys keys) R Map.empty = entry keys R"
  by (rule ext) (simp add: fold_add_keys_apply entry_def ids_under_def)

text \<open>Every table of a built index, in closed form.\<close>

lemma index_searchables_tables:
  "by_class (index_searchables s R) = entry class_keys R"
  "by_attr (index_searchables s R) = entry attr_keys R"
  "by_class_attr (index_searchables s R) = entry class_attr_keys R"
  "by_value (index_searchables s R) = entry value_keys R"
  "by_class_value (index_searchables s R) = entry class_value_keys R"
  "by_attr_value (index_searchables s R) = entry attr_value_keys R"
  "by_class_attr_value (index_searchables s R) = entry class_attr_value_keys R"
  "ranked_items (index_searchables s R) = ranked_items s"
  by (simp_all add: index_searchables_def fold_index_searchable_tables fold_add_keys_empty)

lemma entry_cong: "set R = set R' \<Longrightarrow> entry keys R = entry keys R'"
  by (simp add: entry_def fun_eq_iff)

lemma entry_finite: "entry keys R k = Some ids \<Longrightarrow> finite ids \<and> ids \<subseteq> dn ` set R \<and> ids \<noteq> {}"
  by (auto simp: entry_def split: if_splits)

lemma entry_member:
  "r \<in> set R \<Longrightarrow> k \<in> set (keys r) \<Longrightarrow> \<exists>ids. entry keys R k = Some ids \<and> dn r \<in> ids"
  by (auto simp: entry_def)

section \<open>Properties of the search and of the ranking\<close>

lemma lookup_term_table_of:
  "lookup_term s t =
     (if term_type t \<in> set [''cav'', ''ca'', ''cv'', ''av'', ''c'', ''a'', ''v'']
      then [(t, table_of s (term_type t) (key t))] else [])"
  by (simp add: lookup_term_def table_of_def)

lemma fold_master_items:
  "fold (\<lambda>results m. case snd results of None \<Rightarrow> m | Some ids \<Rightarrow> m \<union> ids) u m0 =
     m0 \<union> (\<Union>r\<in>set u. case snd r of None \<Rightarrow> {} | Some ids \<Rightarrow> ids)"
  by (induction u arbitrary: m0) (auto split: option.splits)

lemma master_items_Union:
  "master_items u = (\<Union>r\<in>set u. case snd r of None \<Rightarrow> {} | Some ids \<Rightarrow> ids)"
  by (simp add: master_items_def fold_master_items)

lemma table_of_other:
  "term_type t \<notin> set [''cav'', ''ca'', ''cv'', ''av'', ''c'', ''a'', ''v''] \<Longrightarrow>
   table_of s (term_type t) = Map.empty"
  by (simp add: table_of_def)

lemma hits_other:
  "term_type t \<notin> set [''cav'', ''ca'', ''cv'', ''av'', ''c'', ''a'', ''v''] \<Longrightarrow> hits s t = {}"
  using table_of_other [of t s] by (simp add: hits_def ids_under_def)

lemma lookup_term_cases:
  obtains (kind) "lookup_term s t = [(t, table_of s (term_type t) (key t))]"
  | (other) "lookup_term s t = []" "hits s t = {}"
  using lookup_term_table_of [of s t] hits_other [of t s]
  by (cases "term_type t \<in> set [''cav'', ''ca'', ''cv'', ''av'', ''c'', ''a'', ''v'']") simp_all

lemma lookup_term_hits:
  "(\<Union>r\<in>set (lookup_term s t). case snd r of None \<Rightarrow> {} | Some ids \<Rightarrow> ids) = hits s t"
  by (cases s t rule: lookup_term_cases) (simp_all add: hits_def ids_under_def)

lemma master_items_candidates:
  "master_items (concat (map (lookup_term s) ts)) = candidates s ts"
  by (simp add: master_items_Union candidates_def lookup_term_hits)

lemma score_step_fields:
  "pscore (score_step str_of x r it) =
     pscore it + (if x \<in> (case snd r of None \<Rightarrow> {} | Some ids \<Rightarrow> ids)
                  then points (fst r) else 0)"
  "sscore (score_step str_of x r it) = sscore it"
  "terms (score_step str_of x r it) =
     terms it \<union> (if x \<in> (case snd r of None \<Rightarrow> {} | Some ids \<Rightarrow> ids)
                   then {str_of (key (fst r))} else {})"
  by (cases "snd r"; simp add: score_step_def)+

lemma fold_score_step:
  "pscore (fold (score_step str_of x) u it0) =
     pscore it0 +
     (\<Sum>r\<leftarrow>u. if x \<in> (case snd r of None \<Rightarrow> {} | Some ids \<Rightarrow> ids)
             then points (fst r) else 0)"
  "sscore (fold (score_step str_of x) u it0) = sscore it0"
  "terms (fold (score_step str_of x) u it0) =
     terms it0 \<union>
     (\<lambda>r. str_of (key (fst r))) `
       {r \<in> set u. x \<in> (case snd r of None \<Rightarrow> {} | Some ids \<Rightarrow> ids)}"
proof (induction u arbitrary: it0)
  case Nil
  {
    case 1 show ?case by simp
  next
    case 2 show ?case by simp
  next
    case 3 show ?case by simp
  }
next
  case (Cons r u)
  {
    case 1 show ?case
      by (simp add: Cons.IH score_step_fields)
  next
    case 2 show ?case
      by (simp add: Cons.IH score_step_fields)
  next
    case 3 show ?case
      by (auto simp: Cons.IH score_step_fields)
  }
qed

lemma score_item_fields:
  "pscore (score_item str_of u x) =
     (\<Sum>r\<leftarrow>u. if x \<in> (case snd r of None \<Rightarrow> {} | Some ids \<Rightarrow> ids) then points (fst r) else 0)"
  "sscore (score_item str_of u x) = 0"
  "terms (score_item str_of u x) =
     (\<lambda>r. str_of (key (fst r))) `
       {r \<in> set u. x \<in> (case snd r of None \<Rightarrow> {} | Some ids \<Rightarrow> ids)}"
  by (simp_all add: score_item_def fold_score_step)

lemma lookup_term_points:
  "(\<Sum>r\<leftarrow>lookup_term s t.
       if x \<in> (case snd r of None \<Rightarrow> {} | Some ids \<Rightarrow> ids) then points (fst r) else 0) =
   (if x \<in> hits s t then points t else 0)"
  by (cases s t rule: lookup_term_cases) (simp_all add: hits_def ids_under_def)

lemma lookup_term_keys:
  "(\<lambda>r. str_of (key (fst r))) `
     {r \<in> set (lookup_term s t). x \<in> (case snd r of None \<Rightarrow> {} | Some ids \<Rightarrow> ids)} =
   (if x \<in> hits s t then {str_of (key t)} else {})"
  by (cases s t rule: lookup_term_cases) (auto simp: hits_def ids_under_def)

lemma score_item_lookup:
  "score_item str_of (concat (map (lookup_term s) ts)) x =
     \<lparr>pscore = primary_score s ts x, sscore = 0, terms = matched_term_keys str_of s ts x\<rparr>"
proof -
  let ?u = "concat (map (lookup_term s) ts)"
  let ?in = "\<lambda>r. x \<in> (case snd r of None \<Rightarrow> {} | Some ids \<Rightarrow> ids)"
  have p: "pscore (score_item str_of ?u x) = primary_score s ts x"
    unfolding score_item_fields primary_score_def
    by (induction ts) (simp_all add: lookup_term_points)
  have "{r \<in> set ?u. ?in r} = (\<Union>t\<in>set ts. {r \<in> set (lookup_term s t). ?in r})"
    by auto
  then have "(\<lambda>r. str_of (key (fst r))) ` {r \<in> set ?u. ?in r} =
      (\<Union>t\<in>set ts. (\<lambda>r. str_of (key (fst r))) ` {r \<in> set (lookup_term s t). ?in r})"
    by (simp add: image_UN)
  also have "\<dots> = (\<Union>t\<in>set ts. if x \<in> hits s t then {str_of (key t)} else {})"
    by (simp only: lookup_term_keys)
  also have "\<dots> = matched_term_keys str_of s ts x"
    by (auto simp: matched_term_keys_def split: if_splits)
  finally have t: "terms (score_item str_of ?u x) = matched_term_keys str_of s ts x"
    by (simp add: score_item_fields)
  show ?thesis
    using p t by (simp add: score_item_fields)
qed

lemma insort_key_cong_on:
  "f x = g x \<Longrightarrow> (\<And>y. y \<in> set ys \<Longrightarrow> f y = g y) \<Longrightarrow> insort_key f x ys = insort_key g x ys"
  by (induction ys) auto

lemma sort_key_cong_on:
  "(\<And>x. x \<in> set xs \<Longrightarrow> f x = g x) \<Longrightarrow> sort_key f xs = sort_key g xs"
proof (induction xs)
  case Nil
  show ?case by simp
next
  case (Cons x xs)
  then have IH: "sort_key f xs = sort_key g xs" by simp
  have "insort_key f x (sort_key g xs) = insort_key g x (sort_key g xs)"
    by (rule insort_key_cong_on) (use Cons.prems in auto)
  with IH show ?case by simp
qed

lemma insort_key_map:
  "insort_key f (g x) (map g ys) = map g (insort_key (\<lambda>y. f (g y)) x ys)"
  by (induction ys) auto

lemma sort_key_map:
  "sort_key f (map g xs) = map g (sort_key (\<lambda>y. f (g y)) xs)"
  by (induction xs) (simp_all add: insort_key_map)

text \<open>
  The sort key ends with the item itself, so whatever the order in which the items of
  the dictionary are enumerated, the sorted list is the same: taking them in ascending
  order loses nothing.
\<close>

lemma sort_key_enumeration:
  fixes f :: "'a::linorder \<Rightarrow> 'b::linorder" and g :: "'a \<Rightarrow> 'c::linorder"
  assumes "distinct xs" and "set xs = m"
  shows "sort_key (\<lambda>x. (f x, g x, x)) xs = sort_key (\<lambda>x. (f x, g x, x)) (sorted_list_of_set m)"
proof (rule sort_key_inj_key_eq)
  have "finite m" using assms(2) by auto
  then have "set xs = set (sorted_list_of_set m)" "distinct (sorted_list_of_set m)"
    using assms(2) by simp_all
  with assms(1) have "mset xs = mset (sorted_list_of_set m)"
    by (simp add: set_eq_iff_mset_eq_distinct)
  then show "mset xs = mset (sort_key (\<lambda>x. (f x, g x, x)) (sorted_list_of_set m))"
    by simp
  show "inj_on (\<lambda>x. (f x, g x, x)) (set xs)"
    by (simp add: inj_on_def)
  show "sorted (map (\<lambda>x. (f x, g x, x)) (sort_key (\<lambda>x. (f x, g x, x)) (sorted_list_of_set m)))"
    by simp
qed

text \<open>What \<open>_rank_results\<close> returns for the results of a list of Terms.\<close>

lemma rank_results_ranking:
  "fst (rank_results str_of s (concat (map (lookup_term s0) ts))) =
     (take 100 (ranking str_of s0 ts), card (candidates s0 ts))"
proof -
  let ?u = "concat (map (lookup_term s0) ts)"
  let ?m = "candidates s0 ts"
  let ?d = "\<lambda>item. if item \<in> ?m then Some (score_item str_of ?u item) else None"
  let ?k = "\<lambda>x. (- pscore (getitem ?d x), - sscore (getitem ?d x), x)"
  let ?mk = "\<lambda>result. \<lparr>pscore = pscore (getitem ?d result), sscore = sscore (getitem ?d result),
                 terms = terms (getitem ?d result), uid = result\<rparr>"
  let ?xs = "sorted_list_of_set ?m"
  have in_m: "x \<in> ?m" if "x \<in> set ?xs" for x
  proof (cases "finite ?m")
    case True
    with that show ?thesis by simp
  next
    case False
    with that show ?thesis by simp
  qed
  have mk: "?mk x = ranked_of str_of s0 ts x" if "x \<in> set ?xs" for x
    using in_m [OF that] by (simp add: getitem_def score_item_lookup ranked_of_def)
  have k: "?k x = rank_key (?mk x)" for x
    by (simp add: rank_key_def)
  have "map ?mk (take 100 (sort_key ?k ?xs)) = take 100 (map ?mk (sort_key ?k ?xs))"
    by (simp add: take_map)
  also have "map ?mk (sort_key ?k ?xs) = sort_key rank_key (map ?mk ?xs)"
    by (simp add: sort_key_map k)
  also have "map ?mk ?xs = map (ranked_of str_of s0 ts) ?xs"
    using mk by simp
  finally have "map ?mk (take 100 (sort_key ?k ?xs)) = take 100 (ranking str_of s0 ts)"
    by (simp add: ranking_def)
  then show ?thesis
    by (simp add: rank_results_def Let_def master_items_candidates)
qed

lemma search_ranking:
  "get_terms q = Inr ts \<Longrightarrow>
   fst (search str_of s q) = Inr (take 100 (ranking str_of s ts), card (candidates s ts))"
  using rank_results_ranking [of str_of s s ts]
  by (auto simp: search_def split: prod.splits)

lemma search_raises:
  "get_terms q = Inl e \<Longrightarrow> search str_of s q = (Inl e, s)"
  by (simp add: search_def)

lemma search_state:
  "snd (search str_of s q) = s \<or> (\<exists>d. snd (search str_of s q) = s\<lparr>ranked_items := d\<rparr>)"
  by (auto simp: search_def rank_results_def Let_def split: sum.splits)

lemma sorted_ranking: "sorted (map rank_key (ranking str_of s ts))"
  by (simp add: ranking_def)

lemma length_ranking: "length (ranking str_of s ts) = card (candidates s ts)"
  by (simp add: ranking_def)

lemma set_ranking:
  "finite (candidates s ts) \<Longrightarrow>
   set (ranking str_of s ts) = ranked_of str_of s ts ` candidates s ts"
  by (simp add: ranking_def)

lemma ranking_member:
  assumes "r \<in> set (ranking str_of s ts)"
  shows "r = ranked_of str_of s ts (uid r) \<and> uid r \<in> candidates s ts"
proof (cases "finite (candidates s ts)")
  case True
  with assms show ?thesis
    by (auto simp: set_ranking ranked_of_def)
next
  case False
  with assms show ?thesis
    by (simp add: ranking_def)
qed

lemma distinct_ranking: "distinct (map uid (ranking str_of s ts))"
proof -
  have "map uid (ranking str_of s ts) =
      map uid (sort_key rank_key (map (ranked_of str_of s ts) (sorted_list_of_set (candidates s ts))))"
    by (simp add: ranking_def)
  have inj: "inj_on uid (set (map (ranked_of str_of s ts) (sorted_list_of_set (candidates s ts))))"
    by (auto simp: inj_on_def ranked_of_def)
  have "distinct (map (ranked_of str_of s ts) (sorted_list_of_set (candidates s ts)))"
    by (simp add: distinct_map inj_on_def ranked_of_def)
  then have "distinct (ranking str_of s ts)"
    by (simp add: ranking_def)
  moreover have "inj_on uid (set (ranking str_of s ts))"
    using inj by (simp add: ranking_def)
  ultimately show ?thesis
    by (simp add: distinct_map)
qed

section \<open>The index after a build\<close>

lemma entry_filter:
  "entry keys R k =
     (case filter (\<lambda>r. k \<in> set (keys r)) R of
        [] \<Rightarrow> None
      | r # rs \<Rightarrow> Some (set (map dn (r # rs))))"
proof (cases "filter (\<lambda>r. k \<in> set (keys r)) R")
  case Nil
  then have "\<not> (\<exists>r\<in>set R. k \<in> set (keys r))"
    by (simp add: filter_empty_conv)
  with Nil show ?thesis by (simp add: entry_def)
next
  case (Cons r rs)
  then have "set (filter (\<lambda>r. k \<in> set (keys r)) R) \<noteq> {}" by simp
  then have ex: "\<exists>r\<in>set R. k \<in> set (keys r)" by auto
  have "dn ` {r \<in> set R. k \<in> set (keys r)} = set (map dn (filter (\<lambda>r. k \<in> set (keys r)) R))"
    by auto
  with ex Cons show ?thesis by (simp add: entry_def)
qed

lemma tables_built:
  "tables (index_searchables s R) =
     [entry attr_keys R, entry value_keys R, entry class_keys R, entry attr_value_keys R,
      entry class_value_keys R, entry class_attr_keys R, entry class_attr_value_keys R]"
  by (simp add: tables_def index_searchables_tables)

lemma ids_under_entry:
  "r \<in> set R \<Longrightarrow> k \<in> set (keys r) \<Longrightarrow> dn r \<in> ids_under (entry keys R) k"
  by (auto simp: ids_under_def entry_def)

lemma table_of_tables:
  "table_of s kind = Map.empty \<or> table_of s kind \<in> set (tables s)"
  by (simp add: table_of_def tables_def)

lemma table_of_cong: "tables s = tables s' \<Longrightarrow> table_of s = table_of s'"
  by (rule ext) (simp add: table_of_def tables_def)

lemma lookup_term_cong: "tables s = tables s' \<Longrightarrow> lookup_term s = lookup_term s'"
  by (rule ext) (simp add: lookup_term_def tables_def)

lemma rank_results_state: "fst (rank_results str_of s u) = fst (rank_results str_of s' u)"
  by (simp add: rank_results_def Let_def)

lemma search_cong:
  assumes "tables s = tables s'"
  shows "fst (search str_of s q) = fst (search str_of s' q)"
proof (cases "get_terms q")
  case (Inl e)
  then show ?thesis by (simp add: search_def)
next
  case (Inr ts)
  have "fst (search str_of s q) = Inr (fst (rank_results str_of s (concat (map (lookup_term s) ts))))"
    using Inr by (simp add: search_def split: prod.splits)
  moreover have "fst (search str_of s' q) =
      Inr (fst (rank_results str_of s' (concat (map (lookup_term s') ts))))"
    using Inr by (simp add: search_def split: prod.splits)
  ultimately show ?thesis
    using lookup_term_cong [OF assms] rank_results_state [of str_of s _ s'] by simp
qed

lemma tables_search: "tables (snd (search str_of s q)) = tables s"
  using search_state [of str_of s q] by (auto simp: tables_def)

lemma tables_searches: "tables (fold (\<lambda>q s. snd (search str_of s q)) qs s) = tables s"
  by (induction qs arbitrary: s) (simp_all add: tables_search)

lemma built_table_sound:
  assumes "d \<in> set (tables (index_searchables s R))" and "d k = Some ids"
  shows "finite ids \<and> ids \<subseteq> dn ` set R"
proof -
  from assms(1) obtain keys where "d = entry keys R"
    by (auto simp: tables_built)
  with assms(2) show ?thesis
    using entry_finite [of keys R k ids] by simp
qed

lemma built_hits: "finite (hits (index_searchables s R) t) \<and> hits (index_searchables s R) t \<subseteq> dn ` set R"
proof (cases "table_of (index_searchables s R) (term_type t) (key t)")
  case None
  then show ?thesis by (simp add: hits_def ids_under_def)
next
  case (Some ids)
  then have "table_of (index_searchables s R) (term_type t) \<noteq> Map.empty"
    by auto
  with table_of_tables [of "index_searchables s R" "term_type t"]
  have "table_of (index_searchables s R) (term_type t) \<in> set (tables (index_searchables s R))"
    by simp
  from built_table_sound [OF this Some] Some show ?thesis
    by (simp add: hits_def ids_under_def)
qed

lemma built_candidates: "finite (candidates (index_searchables s R) ts)"
  by (simp add: candidates_def built_hits)

text \<open>
  C7. After a build from the records \<open>R\<close>, the id of every record is in \<open>by_class\<close>
  under its class, in \<open>by_attr\<close> and \<open>by_class_attr\<close> under each of its attributes, in
  \<open>by_value\<close> and \<open>by_class_value\<close> under each of its values, and in \<open>by_attr_value\<close>
  and \<open>by_class_attr_value\<close> under each of its (attribute, value) pairs; and every id
  in an entry of one of the seven tables is the id of a record of \<open>R\<close>.
\<close>

theorem index_searchables_invariant:
  "(\<forall>r\<in>set R.
      dn r \<in> ids_under (by_class (index_searchables s R)) (Str (object_class r))
    \<and> (\<forall>a\<in>set (attr r).
          dn r \<in> ids_under (by_attr (index_searchables s R)) (Str a)
        \<and> dn r \<in> ids_under (by_class_attr (index_searchables s R)) (Tup2 (object_class r) a))
    \<and> (\<forall>v\<in>set (value' r).
          dn r \<in> ids_under (by_value (index_searchables s R)) (Str v)
        \<and> dn r \<in> ids_under (by_class_value (index_searchables s R)) (Tup2 (object_class r) v))
    \<and> (\<forall>(a, v)\<in>set (attr_value r).
          dn r \<in> ids_under (by_attr_value (index_searchables s R)) (Tup2 a v)
        \<and> dn r \<in> ids_under (by_class_attr_value (index_searchables s R))
                   (Tup3 (object_class r) a v)))
   \<and> (\<forall>d\<in>set (tables (index_searchables s R)). \<forall>k ids. d k = Some ids \<longrightarrow> ids \<subseteq> dn ` set R)"
proof (intro conjI ballI allI impI)
  fix r assume r: "r \<in> set R"
  show "dn r \<in> ids_under (by_class (index_searchables s R)) (Str (object_class r))"
    unfolding index_searchables_tables
    by (rule ids_under_entry [OF r]) (simp add: class_keys_def)
  {
    fix a assume a: "a \<in> set (attr r)"
    show "dn r \<in> ids_under (by_attr (index_searchables s R)) (Str a)"
      unfolding index_searchables_tables
      by (rule ids_under_entry [OF r]) (simp add: attr_keys_def a)
    show "dn r \<in> ids_under (by_class_attr (index_searchables s R)) (Tup2 (object_class r) a)"
      unfolding index_searchables_tables
      by (rule ids_under_entry [OF r]) (simp add: class_attr_keys_def a)
  }
  {
    fix v assume v: "v \<in> set (value' r)"
    show "dn r \<in> ids_under (by_value (index_searchables s R)) (Str v)"
      unfolding index_searchables_tables
      by (rule ids_under_entry [OF r]) (simp add: value_keys_def v)
    show "dn r \<in> ids_under (by_class_value (index_searchables s R)) (Tup2 (object_class r) v)"
      unfolding index_searchables_tables
      by (rule ids_under_entry [OF r]) (simp add: class_value_keys_def v)
  }
  {
    fix av assume av: "av \<in> set (attr_value r)"
    have "dn r \<in> ids_under (by_attr_value (index_searchables s R)) (Tup2 (fst av) (snd av))"
      unfolding index_searchables_tables
      by (rule ids_under_entry [OF r]) (use av in \<open>force simp: attr_value_keys_def\<close>)
    moreover have "dn r \<in> ids_under (by_class_attr_value (index_searchables s R))
                     (Tup3 (object_class r) (fst av) (snd av))"
      unfolding index_searchables_tables
      by (rule ids_under_entry [OF r]) (use av in \<open>force simp: class_attr_value_keys_def\<close>)
    ultimately show "case av of (a, v) \<Rightarrow>
          dn r \<in> ids_under (by_attr_value (index_searchables s R)) (Tup2 a v)
        \<and> dn r \<in> ids_under (by_class_attr_value (index_searchables s R))
                   (Tup3 (object_class r) a v)"
      by (simp add: case_prod_beta)
  }
next
  fix d k ids
  assume "d \<in> set (tables (index_searchables s R))" and "d k = Some ids"
  then show "ids \<subseteq> dn ` set R"
    using built_table_sound by blast
qed

theorem index_searchables_invariant_witness:
  "\<forall>s. by_class (index_searchables s [tenant_name, tenant_app1]) (Str ''Tenant'') =
          Some {''uni/tn-name'', ''uni/tn-APP1''}
     \<and> ''uni/tn-APP1'' \<in> ids_under (by_class (index_searchables s [tenant_name, tenant_app1]))
                            (Str ''Tenant'')
     \<and> ''uni/tn-APP1'' \<in> ids_under (by_attr (index_searchables s [tenant_name, tenant_app1]))
                            (Str ''name'')
     \<and> ''uni/tn-APP1'' \<in> ids_under (by_class_attr (index_searchables s [tenant_name, tenant_app1]))
                            (Tup2 ''Tenant'' ''name'')
     \<and> ''uni/tn-APP1'' \<in> ids_under (by_value (index_searchables s [tenant_name, tenant_app1]))
                            (Str ''APP1'')
     \<and> ''uni/tn-APP1'' \<in> ids_under (by_class_value (index_searchables s [tenant_name, tenant_app1]))
                            (Tup2 ''Tenant'' ''APP1'')
     \<and> ''uni/tn-APP1'' \<in> ids_under (by_attr_value (index_searchables s [tenant_name, tenant_app1]))
                            (Tup2 ''name'' ''APP1'')
     \<and> ''uni/tn-APP1'' \<in> ids_under (by_class_attr_value (index_searchables s [tenant_name, tenant_app1]))
                            (Tup3 ''Tenant'' ''name'' ''APP1'')
     \<and> {''uni/tn-name'', ''uni/tn-APP1''} \<subseteq> dn ` set [tenant_name, tenant_app1]"
proof
  fix s
  have c: "by_class (index_searchables s [tenant_name, tenant_app1]) (Str ''Tenant'') =
          Some {''uni/tn-name'', ''uni/tn-APP1''}"
    by (simp add: index_searchables_tables entry_filter class_keys_def tenant_name_def
          tenant_app1_def)
  have t: "by_class (index_searchables s [tenant_name, tenant_app1])
             \<in> set (tables (index_searchables s [tenant_name, tenant_app1]))"
    by (simp add: tables_def)
  have m: "tenant_app1 \<in> set [tenant_name, tenant_app1]" by simp
  note inv = index_searchables_invariant [of "[tenant_name, tenant_app1]" s]
  from inv have sound: "{''uni/tn-name'', ''uni/tn-APP1''} \<subseteq> dn ` set [tenant_name, tenant_app1]"
    using t c by blast
  from inv m have
    "dn tenant_app1 \<in> ids_under (by_class (index_searchables s [tenant_name, tenant_app1]))
        (Str (object_class tenant_app1))
    \<and> (\<forall>a\<in>set (attr tenant_app1).
          dn tenant_app1 \<in> ids_under (by_attr (index_searchables s [tenant_name, tenant_app1])) (Str a)
        \<and> dn tenant_app1 \<in> ids_under (by_class_attr (index_searchables s [tenant_name, tenant_app1]))
             (Tup2 (object_class tenant_app1) a))
    \<and> (\<forall>v\<in>set (value' tenant_app1).
          dn tenant_app1 \<in> ids_under (by_value (index_searchables s [tenant_name, tenant_app1])) (Str v)
        \<and> dn tenant_app1 \<in> ids_under (by_class_value (index_searchables s [tenant_name, tenant_app1]))
             (Tup2 (object_class tenant_app1) v))
    \<and> (\<forall>(a, v)\<in>set (attr_value tenant_app1).
          dn tenant_app1 \<in> ids_under (by_attr_value (index_searchables s [tenant_name, tenant_app1]))
             (Tup2 a v)
        \<and> dn tenant_app1 \<in> ids_under (by_class_attr_value (index_searchables s [tenant_name, tenant_app1]))
                   (Tup3 (object_class tenant_app1) a v))"
    by blast
  then have complete:
    "''uni/tn-APP1'' \<in> ids_under (by_class (index_searchables s [tenant_name, tenant_app1]))
                            (Str ''Tenant'')
     \<and> ''uni/tn-APP1'' \<in> ids_under (by_attr (index_searchables s [tenant_name, tenant_app1]))
                            (Str ''name'')
     \<and> ''uni/tn-APP1'' \<in> ids_under (by_class_attr (index_searchables s [tenant_name, tenant_app1]))
                            (Tup2 ''Tenant'' ''name'')
     \<and> ''uni/tn-APP1'' \<in> ids_under (by_value (index_searchables s [tenant_name, tenant_app1]))
                            (Str ''APP1'')
     \<and> ''uni/tn-APP1'' \<in> ids_under (by_class_value (index_searchables s [tenant_name, tenant_app1]))
                            (Tup2 ''Tenant'' ''APP1'')
     \<and> ''uni/tn-APP1'' \<in> ids_under (by_attr_value (index_searchables s [tenant_name, tenant_app1]))
                            (Tup2 ''name'' ''APP1'')
     \<and> ''uni/tn-APP1'' \<in> ids_under (by_class_attr_value (index_searchables s [tenant_name, tenant_app1]))
                            (Tup3 ''Tenant'' ''name'' ''APP1'')"
    by (simp add: tenant_app1_def)
  from c sound complete
  show "by_class (index_searchables s [tenant_name, tenant_app1]) (Str ''Tenant'') =
          Some {''uni/tn-name'', ''uni/tn-APP1''}
     \<and> ''uni/tn-APP1'' \<in> ids_under (by_class (index_searchables s [tenant_name, tenant_app1]))
                            (Str ''Tenant'')
     \<and> ''uni/tn-APP1'' \<in> ids_under (by_attr (index_searchables s [tenant_name, tenant_app1]))
                            (Str ''name'')
     \<and> ''uni/tn-APP1'' \<in> ids_under (by_class_attr (index_searchables s [tenant_name, tenant_app1]))
                            (Tup2 ''Tenant'' ''name'')
     \<and> ''uni/tn-APP1'' \<in> ids_under (by_value (index_searchables s [tenant_name, tenant_app1]))
                            (Str ''APP1'')
     \<and> ''uni/tn-APP1'' \<in> ids_under (by_class_value (index_searchables s [tenant_name, tenant_app1]))
                            (Tup2 ''Tenant'' ''APP1'')
     \<and> ''uni/tn-APP1'' \<in> ids_under (by_attr_value (index_searchables s [tenant_name, tenant_app1]))
                            (Tup2 ''name'' ''APP1'')
     \<and> ''uni/tn-APP1'' \<in> ids_under (by_class_attr_value (index_searchables s [tenant_name, tenant_app1]))
                            (Tup3 ''Tenant'' ''name'' ''APP1'')
     \<and> {''uni/tn-name'', ''uni/tn-APP1''} \<subseteq> dn ` set [tenant_name, tenant_app1]"
    by blast
qed

text \<open>
  C8. A build assigns fresh tables and fills them from the records alone: what the
  tables held before plays no part, a second build from the same records gives the same
  state as the first, and every query has the same result after it.
\<close>

theorem index_searchables_idempotent:
  "index_searchables (index_searchables s R) R = index_searchables s R
   \<and> tables (index_searchables s' R) = tables (index_searchables s R)
   \<and> fst (search str_of (index_searchables (index_searchables s R) R) q) =
       fst (search str_of (index_searchables s R) q)"
proof (intro conjI)
  show "index_searchables (index_searchables s R) R = index_searchables s R"
    by (rule index.equality) (simp_all add: index_searchables_tables)
  then show "fst (search str_of (index_searchables (index_searchables s R) R) q) =
       fst (search str_of (index_searchables s R) q)"
    by simp
  show "tables (index_searchables s' R) = tables (index_searchables s R)"
    by (simp add: tables_built)
qed

text \<open>
  C9. A search leaves the seven tables as they were, whether it returns or raises; so
  does any sequence of searches, and the result of a query is the same after it as
  before.
\<close>

theorem search_read_only:
  "tables (snd (search str_of s q)) = tables s
   \<and> tables (fold (\<lambda>q s. snd (search str_of s q)) qs s) = tables s
   \<and> fst (search str_of (fold (\<lambda>q s. snd (search str_of s q)) qs s) q) =
       fst (search str_of s q)"
  using tables_search [of str_of s q] tables_searches [of str_of qs s]
    search_cong [OF tables_searches [of str_of qs s], of str_of q]
  by simp

section \<open>The result of a search\<close>

lemma hits_iff:
  "x \<in> hits s t \<longleftrightarrow> (\<exists>ids. table_of s (term_type t) (key t) = Some ids \<and> x \<in> ids)"
  by (simp add: hits_def ids_under_def split: option.splits)

lemma candidates_present:
  "candidates s ts = \<Union> {ids. \<exists>t\<in>set ts. table_of s (term_type t) (key t) = Some ids}"
proof (rule set_eqI)
  fix x
  have "x \<in> candidates s ts \<longleftrightarrow> (\<exists>t\<in>set ts. x \<in> hits s t)"
    by (simp add: candidates_def)
  also have "\<dots> \<longleftrightarrow>
      (\<exists>t\<in>set ts. \<exists>ids. table_of s (term_type t) (key t) = Some ids \<and> x \<in> ids)"
    by (simp add: hits_iff)
  also have "\<dots> \<longleftrightarrow>
      x \<in> \<Union> {ids. \<exists>t\<in>set ts. table_of s (term_type t) (key t) = Some ids}"
    by blast
  finally show "x \<in> candidates s ts \<longleftrightarrow>
      x \<in> \<Union> {ids. \<exists>t\<in>set ts. table_of s (term_type t) (key t) = Some ids}" .
qed

lemma ids_under_entry_eq:
  "ids_under (entry keys R) k = dn ` {r \<in> set R. k \<in> set (keys r)}"
  by (auto simp: ids_under_def entry_def)

lemma search_returns:
  assumes "fst (search str_of s q) = Inr (res, tot)"
  obtains ts where "get_terms q = Inr ts"
    and "res = take 100 (ranking str_of s ts)" and "tot = card (candidates s ts)"
proof (cases "get_terms q")
  case (Inl e)
  with assms show ?thesis by (simp add: search_raises)
next
  case (Inr ts)
  from search_ranking [OF Inr, of str_of s] assms that [OF Inr] show ?thesis by simp
qed

lemma ranking_take_member:
  assumes "r \<in> set (take n (ranking str_of s ts))"
  shows "r = ranked_of str_of s ts (uid r) \<and> uid r \<in> candidates s ts"
  using assms ranking_member [of r str_of s ts] by (auto dest: in_set_takeD)

lemma rank_key_less:
  "rank_key a < rank_key b \<longleftrightarrow>
     pscore b < pscore a
     \<or> pscore b = pscore a \<and> (sscore b < sscore a \<or> sscore b = sscore a \<and> uid a < uid b)"
  by (auto simp: rank_key_def less_prod_def less_eq_prod_def)

lemma sorted_rank_key_strict:
  assumes "sorted (map rank_key res)" and "distinct (map uid res)"
    and "i < j" and "j < length res"
  shows "rank_key (res ! i) < rank_key (res ! j)"
proof -
  have "map rank_key res ! i \<le> map rank_key res ! j"
    using assms(1,3,4) by (simp add: sorted_iff_nth_mono del: nth_map)
  then have le: "rank_key (res ! i) \<le> rank_key (res ! j)"
    using assms(3,4) by simp
  have "map uid res ! i \<noteq> map uid res ! j"
    using assms(2,3,4) by (simp add: nth_eq_iff_index_eq del: nth_map)
  then have "uid (res ! i) \<noteq> uid (res ! j)"
    using assms(3,4) by simp
  then have "rank_key (res ! i) \<noteq> rank_key (res ! j)"
    by (auto simp: rank_key_def)
  with le show ?thesis by simp
qed

lemma sorted_take_ranking: "sorted (map rank_key (take n (ranking str_of s ts)))"
proof -
  have "map rank_key (take n (ranking str_of s ts)) = take n (map rank_key (ranking str_of s ts))"
    by (simp add: take_map)
  then show ?thesis
    using sorted_ranking [of str_of s ts] by (simp add: sorted_wrt_take)
qed

lemma distinct_take_ranking: "distinct (map uid (take n (ranking str_of s ts)))"
proof -
  have "map uid (take n (ranking str_of s ts)) = take n (map uid (ranking str_of s ts))"
    by (simp add: take_map)
  then show ?thesis
    using distinct_ranking [of str_of s ts] by simp
qed

lemma tables_built_cong:
  "set R' = set R \<Longrightarrow> tables (index_searchables s' R') = tables (index_searchables s R)"
  by (simp add: tables_built entry_cong [of R' R])

text \<open>The queries and the index of the examples.\<close>

lemma ex_terms_wild:
  "get_terms ''#Tenant*name'' =
     Inr [\<lparr>key = Tup2 ''Tenant'' ''name'', term_type = ''ca'', points = 3\<rparr>,
          \<lparr>key = Tup2 ''Tenant'' ''name'', term_type = ''cv'', points = 3\<rparr>]"
  by (simp add: get_terms_def strip_def is_space_def parse_input_def build_search_term_def
        re_literal_def any_escape_def class_escape_def attr_escape_def value_escape_def
        is_marker_def cls_def)

lemma ex_terms_class:
  "get_terms ''#Tenant'' = Inr [\<lparr>key = Str ''Tenant'', term_type = ''c'', points = 2\<rparr>]"
  by (simp add: get_terms_def strip_def is_space_def parse_input_def build_search_term_def
        re_literal_def any_escape_def class_escape_def attr_escape_def value_escape_def
        is_marker_def cls_def)

lemma ex_hits:
  "hits (index_searchables s [tenant_name, tenant_app1])
     \<lparr>key = Tup2 ''Tenant'' ''name'', term_type = ''ca'', points = 3\<rparr> =
       {''uni/tn-name'', ''uni/tn-APP1''}"
  "hits (index_searchables s [tenant_name, tenant_app1])
     \<lparr>key = Tup2 ''Tenant'' ''name'', term_type = ''cv'', points = 3\<rparr> = {''uni/tn-name''}"
  "hits (index_searchables s [tenant_name, tenant_app1])
     \<lparr>key = Str ''Tenant'', term_type = ''c'', points = 2\<rparr> =
       {''uni/tn-name'', ''uni/tn-APP1''}"
  by (simp_all add: hits_def table_of_def index_searchables_tables entry_filter ids_under_def
        class_attr_keys_def class_value_keys_def class_keys_def tenant_name_def tenant_app1_def)

lemma ex_candidates:
  "candidates (index_searchables s [tenant_name, tenant_app1])
     [\<lparr>key = Tup2 ''Tenant'' ''name'', term_type = ''ca'', points = 3\<rparr>,
      \<lparr>key = Tup2 ''Tenant'' ''name'', term_type = ''cv'', points = 3\<rparr>] =
       {''uni/tn-APP1'', ''uni/tn-name''}"
  "candidates (index_searchables s [tenant_name, tenant_app1])
     [\<lparr>key = Str ''Tenant'', term_type = ''c'', points = 2\<rparr>] =
       {''uni/tn-APP1'', ''uni/tn-name''}"
  by (auto simp: candidates_def ex_hits)

lemma ex_sorted:
  "sorted_list_of_set {''uni/tn-APP1'', ''uni/tn-name''} = [''uni/tn-APP1'', ''uni/tn-name'']"
  by (simp add: less_char_def less_eq_char_def)

lemma ex_search_wild:
  "fst (search str_of (index_searchables s [tenant_name, tenant_app1]) ''#Tenant*name'') =
     Inr ([\<lparr>pscore = 6, sscore = 0, terms = {str_of (Tup2 ''Tenant'' ''name'')},
            uid = ''uni/tn-name''\<rparr>,
           \<lparr>pscore = 3, sscore = 0, terms = {str_of (Tup2 ''Tenant'' ''name'')},
            uid = ''uni/tn-APP1''\<rparr>], 2)"
  unfolding search_ranking [OF ex_terms_wild] ranking_def ex_candidates ex_sorted
  by (simp add: ranked_of_def primary_score_def matched_term_keys_def rank_key_def ex_hits)

lemma ex_search_class:
  "fst (search str_of (index_searchables s [tenant_name, tenant_app1]) ''#Tenant'') =
     Inr ([\<lparr>pscore = 2, sscore = 0, terms = {str_of (Str ''Tenant'')},
            uid = ''uni/tn-APP1''\<rparr>,
           \<lparr>pscore = 2, sscore = 0, terms = {str_of (Str ''Tenant'')},
            uid = ''uni/tn-name''\<rparr>], 2)"
  unfolding search_ranking [OF ex_terms_class] ranking_def ex_candidates ex_sorted
  by (simp add: ranked_of_def primary_score_def matched_term_keys_def rank_key_def ex_hits
        less_char_def less_eq_char_def)

lemma tenants_hits:
  "hits (index_searchables s (tenants n)) \<lparr>key = Str ''Tenant'', term_type = ''c'', points = 2\<rparr> =
     (\<lambda>i. replicate i CHR ''t'') ` {0..<n}"
proof -
  have "{r \<in> set (tenants n). Str ''Tenant'' \<in> set (class_keys r)} = set (tenants n)"
    by (auto simp: tenants_def class_keys_def)
  moreover have "dn ` set (tenants n) = (\<lambda>i. replicate i CHR ''t'') ` {0..<n}"
    by (auto simp: tenants_def image_iff)
  ultimately show ?thesis
    by (simp add: hits_def table_of_def index_searchables_tables ids_under_entry_eq)
qed

lemma tenants_candidates:
  "card (candidates (index_searchables s (tenants n))
           [\<lparr>key = Str ''Tenant'', term_type = ''c'', points = 2\<rparr>]) = n"
proof -
  have "inj_on (\<lambda>i. replicate i CHR ''t'') {0..<n}"
    by (rule inj_onI) (metis length_replicate)
  then have "card ((\<lambda>i. replicate i CHR ''t'') ` {0..<n}) = n"
    by (simp add: card_image)
  then show ?thesis
    by (simp add: candidates_def tenants_hits)
qed

lemma search_ranked_items:
  assumes "get_terms q = Inr ts"
  shows "ranked_items (snd (search str_of s q)) x =
           (if x \<in> candidates s ts
            then Some \<lparr>pscore = primary_score s ts x, sscore = 0,
                       terms = matched_term_keys str_of s ts x\<rparr>
            else None)"
  using assms
  by (simp add: search_def rank_results_def Let_def master_items_candidates score_item_lookup)

lemma matched_term_keys_set:
  "matched_term_keys str_of s ts x = {str_of (key t) | t. t \<in> set ts \<and> x \<in> hits s t}"
  by (auto simp: matched_term_keys_def)

text \<open>
  C4. For a query whose pieces all parse, searched on a built index: the candidates are
  the union of the match sets of the Terms whose key is present in the table of their
  kind (a missing key adds nothing and raises nothing); \<open>search\<close> returns, with the
  number of candidates as total; every result is a candidate, and all candidates are
  results when there are at most 100; the pscore of a result is the sum of the weights
  of the Terms whose match set holds its id, and its terms are the strings of the keys
  of those Terms. The same holds of the entry that \<open>ranked_items\<close> keeps for every
  candidate, returned or not.
\<close>

theorem search_candidates_scores:
  assumes "get_terms q = Inr ts" and "B = index_searchables s R"
  shows "candidates B ts = \<Union> {ids. \<exists>t\<in>set ts. table_of B (term_type t) (key t) = Some ids}
       \<and> (\<exists>res. fst (search str_of B q) = Inr (res, card (candidates B ts))
            \<and> uid ` set res \<subseteq> candidates B ts
            \<and> (card (candidates B ts) \<le> 100 \<longrightarrow> uid ` set res = candidates B ts)
            \<and> (\<forall>r\<in>set res.
                  pscore r = (\<Sum>t\<leftarrow>ts. if uid r \<in> hits B t then points t else 0)
                \<and> terms r = {str_of (key t) | t. t \<in> set ts \<and> uid r \<in> hits B t}))
       \<and> (\<forall>x\<in>candidates B ts.
            ranked_items (snd (search str_of B q)) x =
              Some \<lparr>pscore = (\<Sum>t\<leftarrow>ts. if x \<in> hits B t then points t else 0), sscore = 0,
                    terms = {str_of (key t) | t. t \<in> set ts \<and> x \<in> hits B t}\<rparr>)"
proof (intro conjI exI)
  show "\<forall>x\<in>candidates B ts.
          ranked_items (snd (search str_of B q)) x =
            Some \<lparr>pscore = (\<Sum>t\<leftarrow>ts. if x \<in> hits B t then points t else 0), sscore = 0,
                  terms = {str_of (key t) | t. t \<in> set ts \<and> x \<in> hits B t}\<rparr>"
    using search_ranked_items [OF assms(1), of str_of B]
    by (simp add: primary_score_def matched_term_keys_set)
  let ?res = "take 100 (ranking str_of B ts)"
  show "candidates B ts = \<Union> {ids. \<exists>t\<in>set ts. table_of B (term_type t) (key t) = Some ids}"
    by (rule candidates_present)
  show "fst (search str_of B q) = Inr (?res, card (candidates B ts))"
    using assms(1) by (rule search_ranking)
  show "uid ` set ?res \<subseteq> candidates B ts"
  proof
    fix x assume "x \<in> uid ` set ?res"
    then obtain r where "r \<in> set ?res" and "x = uid r" by auto
    then show "x \<in> candidates B ts"
      using ranking_take_member [of r 100 str_of B ts] by simp
  qed
  show "card (candidates B ts) \<le> 100 \<longrightarrow> uid ` set ?res = candidates B ts"
  proof
    assume "card (candidates B ts) \<le> 100"
    then have "?res = ranking str_of B ts"
      by (simp add: length_ranking)
    moreover have "finite (candidates B ts)"
      unfolding assms(2) by (rule built_candidates)
    ultimately have "set ?res = ranked_of str_of B ts ` candidates B ts"
      by (simp add: set_ranking)
    then show "uid ` set ?res = candidates B ts"
      by (simp add: image_image ranked_of_def)
  qed
  show "\<forall>r\<in>set ?res.
          pscore r = (\<Sum>t\<leftarrow>ts. if uid r \<in> hits B t then points t else 0)
        \<and> terms r = {str_of (key t) | t. t \<in> set ts \<and> uid r \<in> hits B t}"
  proof
    fix r assume "r \<in> set ?res"
    then have r: "r = ranked_of str_of B ts (uid r)"
      using ranking_take_member [of r 100 str_of B ts] by simp
    have "pscore (ranked_of str_of B ts (uid r)) =
            (\<Sum>t\<leftarrow>ts. if uid r \<in> hits B t then points t else 0)"
      by (simp add: ranked_of_def primary_score_def)
    moreover have "terms (ranked_of str_of B ts (uid r)) =
            {str_of (key t) | t. t \<in> set ts \<and> uid r \<in> hits B t}"
      by (simp add: ranked_of_def matched_term_keys_set)
    ultimately show "pscore r = (\<Sum>t\<leftarrow>ts. if uid r \<in> hits B t then points t else 0)
        \<and> terms r = {str_of (key t) | t. t \<in> set ts \<and> uid r \<in> hits B t}"
      using r by simp
  qed
qed

theorem search_candidates_scores_witness:
  "\<forall>str_of s.
     get_terms ''#Tenant*name'' =
       Inr [\<lparr>key = Tup2 ''Tenant'' ''name'', term_type = ''ca'', points = 3\<rparr>,
            \<lparr>key = Tup2 ''Tenant'' ''name'', term_type = ''cv'', points = 3\<rparr>]
   \<and> candidates (index_searchables s [tenant_name, tenant_app1])
       [\<lparr>key = Tup2 ''Tenant'' ''name'', term_type = ''ca'', points = 3\<rparr>,
        \<lparr>key = Tup2 ''Tenant'' ''name'', term_type = ''cv'', points = 3\<rparr>] =
         {''uni/tn-APP1'', ''uni/tn-name''}
   \<and> fst (search str_of (index_searchables s [tenant_name, tenant_app1]) ''#Tenant*name'') =
       Inr ([\<lparr>pscore = 6, sscore = 0, terms = {str_of (Tup2 ''Tenant'' ''name'')},
              uid = ''uni/tn-name''\<rparr>,
             \<lparr>pscore = 3, sscore = 0, terms = {str_of (Tup2 ''Tenant'' ''name'')},
              uid = ''uni/tn-APP1''\<rparr>],
            card (candidates (index_searchables s [tenant_name, tenant_app1])
              [\<lparr>key = Tup2 ''Tenant'' ''name'', term_type = ''ca'', points = 3\<rparr>,
               \<lparr>key = Tup2 ''Tenant'' ''name'', term_type = ''cv'', points = 3\<rparr>]))"
proof (intro allI)
  fix str_of :: "pykey \<Rightarrow> string" and s :: index
  let ?B = "index_searchables s [tenant_name, tenant_app1]"
  let ?ts = "[\<lparr>key = Tup2 ''Tenant'' ''name'', term_type = ''ca'', points = 3\<rparr>,
              \<lparr>key = Tup2 ''Tenant'' ''name'', term_type = ''cv'', points = 3\<rparr>]"
  note scores =
    search_candidates_scores [OF ex_terms_wild refl, of s "[tenant_name, tenant_app1]" str_of]
  from scores [THEN conjunct2, THEN conjunct1]
  obtain res where "fst (search str_of ?B ''#Tenant*name'') = Inr (res, card (candidates ?B ?ts))"
    by (elim exE conjE)
  then show "get_terms ''#Tenant*name'' = Inr ?ts
   \<and> candidates ?B ?ts = {''uni/tn-APP1'', ''uni/tn-name''}
   \<and> fst (search str_of ?B ''#Tenant*name'') =
       Inr ([\<lparr>pscore = 6, sscore = 0, terms = {str_of (Tup2 ''Tenant'' ''name'')},
              uid = ''uni/tn-name''\<rparr>,
             \<lparr>pscore = 3, sscore = 0, terms = {str_of (Tup2 ''Tenant'' ''name'')},
              uid = ''uni/tn-APP1''\<rparr>],
            card (candidates ?B ?ts))"
    using ex_search_wild [of str_of s] ex_terms_wild ex_candidates(1) [of s] by simp
qed

text \<open>
  C5. The results of a search on a built index are sorted on (-pscore, -sscore, uid):
  of two results, the earlier has the higher pscore, or the same pscore and the higher
  sscore, or the same scores and the smaller id. So of two results with equal pscore
  the one with the smaller id comes first. The result does not depend on the order in
  which the build enumerated the records.
\<close>

theorem search_sorted:
  assumes "fst (search str_of (index_searchables s R) q) = Inr (res, tot)"
  shows "sorted (map rank_key res)
       \<and> (\<forall>i j. i < j \<and> j < length res \<longrightarrow>
            pscore (res ! j) < pscore (res ! i)
            \<or> pscore (res ! j) = pscore (res ! i)
              \<and> (sscore (res ! j) < sscore (res ! i)
                 \<or> sscore (res ! j) = sscore (res ! i) \<and> uid (res ! i) < uid (res ! j)))
       \<and> (\<forall>i j. i < length res \<and> j < length res \<and> pscore (res ! i) = pscore (res ! j)
                 \<and> uid (res ! i) < uid (res ! j) \<longrightarrow> i < j)
       \<and> (set R' = set R \<longrightarrow>
            fst (search str_of (index_searchables s' R') q) = Inr (res, tot))"
proof -
  from assms obtain ts where ts: "get_terms q = Inr ts"
    and res: "res = take 100 (ranking str_of (index_searchables s R) ts)"
    by (rule search_returns)
  have sorted: "sorted (map rank_key res)"
    unfolding res by (rule sorted_take_ranking)
  have distinct: "distinct (map uid res)"
    unfolding res by (rule distinct_take_ranking)
  have strict: "rank_key (res ! i) < rank_key (res ! j)" if "i < j" "j < length res" for i j
    using sorted distinct that by (rule sorted_rank_key_strict)
  have zero: "sscore (res ! i) = 0" if "i < length res" for i
  proof -
    have "res ! i \<in> set res"
      using that by (rule nth_mem)
    then have "res ! i \<in> set (take 100 (ranking str_of (index_searchables s R) ts))"
      by (simp only: res)
    from ranking_take_member [OF this] have "sscore (res ! i) =
        sscore (ranked_of str_of (index_searchables s R) ts (uid (res ! i)))"
      by simp
    then show ?thesis by (simp add: ranked_of_def)
  qed
  have tie: "i < j" if "i < length res" "j < length res" "pscore (res ! i) = pscore (res ! j)"
    "uid (res ! i) < uid (res ! j)" for i j
  proof (rule ccontr)
    assume "\<not> i < j"
    then consider "i = j" | "j < i" by linarith
    then show False
    proof cases
      case 1
      with that(4) show False by simp
    next
      case 2
      from strict [OF 2 that(1)] have "uid (res ! j) < uid (res ! i)"
        using that(3) zero [OF that(1)] zero [OF that(2)] by (simp add: rank_key_less)
      with that(4) show False by simp
    qed
  qed
  have order: "fst (search str_of (index_searchables s' R') q) = Inr (res, tot)"
    if "set R' = set R"
    using search_cong [OF tables_built_cong [OF that, of s' s], of str_of q] assms by simp
  show ?thesis
    using sorted strict tie order by (simp add: rank_key_less)
qed

theorem search_sorted_witness:
  "\<forall>str_of s.
     fst (search str_of (index_searchables s [tenant_name, tenant_app1]) ''#Tenant'') =
       Inr ([\<lparr>pscore = 2, sscore = 0, terms = {str_of (Str ''Tenant'')},
              uid = ''uni/tn-APP1''\<rparr>,
             \<lparr>pscore = 2, sscore = 0, terms = {str_of (Str ''Tenant'')},
              uid = ''uni/tn-name''\<rparr>], 2)
   \<and> set [tenant_app1, tenant_name] = set [tenant_name, tenant_app1]
   \<and> fst (search str_of (index_searchables s [tenant_app1, tenant_name]) ''#Tenant'') =
       Inr ([\<lparr>pscore = 2, sscore = 0, terms = {str_of (Str ''Tenant'')},
              uid = ''uni/tn-APP1''\<rparr>,
             \<lparr>pscore = 2, sscore = 0, terms = {str_of (Str ''Tenant'')},
              uid = ''uni/tn-name''\<rparr>], 2)
   \<and> ''uni/tn-APP1'' < ''uni/tn-name''"
proof (intro allI)
  fix str_of :: "pykey \<Rightarrow> string" and s :: index
  have perm: "set [tenant_app1, tenant_name] = set [tenant_name, tenant_app1]"
    by auto
  have less: "''uni/tn-APP1'' < ''uni/tn-name''"
    by (simp add: less_char_def)
  from search_sorted [OF ex_search_class, where R' = "[tenant_app1, tenant_name]" and s' = s] perm
  have "fst (search str_of (index_searchables s [tenant_app1, tenant_name]) ''#Tenant'') =
       Inr ([\<lparr>pscore = 2, sscore = 0, terms = {str_of (Str ''Tenant'')},
              uid = ''uni/tn-APP1''\<rparr>,
             \<lparr>pscore = 2, sscore = 0, terms = {str_of (Str ''Tenant'')},
              uid = ''uni/tn-name''\<rparr>], 2)"
    by blast
  with perm less ex_search_class [of str_of s]
  show "fst (search str_of (index_searchables s [tenant_name, tenant_app1]) ''#Tenant'') =
       Inr ([\<lparr>pscore = 2, sscore = 0, terms = {str_of (Str ''Tenant'')},
              uid = ''uni/tn-APP1''\<rparr>,
             \<lparr>pscore = 2, sscore = 0, terms = {str_of (Str ''Tenant'')},
              uid = ''uni/tn-name''\<rparr>], 2)
   \<and> set [tenant_app1, tenant_name] = set [tenant_name, tenant_app1]
   \<and> fst (search str_of (index_searchables s [tenant_app1, tenant_name]) ''#Tenant'') =
       Inr ([\<lparr>pscore = 2, sscore = 0, terms = {str_of (Str ''Tenant'')},
              uid = ''uni/tn-APP1''\<rparr>,
             \<lparr>pscore = 2, sscore = 0, terms = {str_of (Str ''Tenant'')},
              uid = ''uni/tn-name''\<rparr>], 2)
   \<and> ''uni/tn-APP1'' < ''uni/tn-name''"
    by blast
qed

text \<open>
  C6. For a query whose pieces all parse and whose candidate set has N ids, \<open>search\<close>
  returns the first min(N, 100) results of the ranking and N as total. The query
  \<open>#Tenant\<close> on an index of 150 tenants returns 100 results and the total 150.
\<close>

theorem search_truncates:
  assumes "get_terms q = Inr ts"
  shows "(\<exists>res. fst (search str_of (index_searchables s R) q) =
                  Inr (res, card (candidates (index_searchables s R) ts))
            \<and> res = take 100 (ranking str_of (index_searchables s R) ts)
            \<and> length res = min (card (candidates (index_searchables s R) ts)) 100)
       \<and> (\<exists>res. fst (search str_of (index_searchables s (tenants 150)) ''#Tenant'') =
                  Inr (res, 150)
            \<and> length res = 100)"
proof (intro conjI exI)
  show "fst (search str_of (index_searchables s R) q) =
          Inr (take 100 (ranking str_of (index_searchables s R) ts),
               card (candidates (index_searchables s R) ts))"
    using assms by (rule search_ranking)
  show "length (take 100 (ranking str_of (index_searchables s R) ts)) =
          min (card (candidates (index_searchables s R) ts)) 100"
    by (simp add: length_ranking)
  let ?t = "[\<lparr>key = Str ''Tenant'', term_type = ''c'', points = 2\<rparr>]"
  show "fst (search str_of (index_searchables s (tenants 150)) ''#Tenant'') =
          Inr (take 100 (ranking str_of (index_searchables s (tenants 150)) ?t), 150)"
    using search_ranking [OF ex_terms_class, of str_of "index_searchables s (tenants 150)"]
    by (simp add: tenants_candidates)
  show "length (take 100 (ranking str_of (index_searchables s (tenants 150)) ?t)) = 100"
    by (simp add: length_ranking tenants_candidates)
qed simp

theorem search_truncates_witness:
  "\<forall>str_of s.
     get_terms ''#Tenant'' = Inr [\<lparr>key = Str ''Tenant'', term_type = ''c'', points = 2\<rparr>]
   \<and> fst (search str_of (index_searchables s [tenant_name, tenant_app1]) ''#Tenant'') =
       Inr ([\<lparr>pscore = 2, sscore = 0, terms = {str_of (Str ''Tenant'')},
              uid = ''uni/tn-APP1''\<rparr>,
             \<lparr>pscore = 2, sscore = 0, terms = {str_of (Str ''Tenant'')},
              uid = ''uni/tn-name''\<rparr>],
            card (candidates (index_searchables s [tenant_name, tenant_app1])
                    [\<lparr>key = Str ''Tenant'', term_type = ''c'', points = 2\<rparr>]))
   \<and> card (candidates (index_searchables s [tenant_name, tenant_app1])
             [\<lparr>key = Str ''Tenant'', term_type = ''c'', points = 2\<rparr>]) = 2"
proof (intro allI)
  fix str_of :: "pykey \<Rightarrow> string" and s :: index
  let ?B = "index_searchables s [tenant_name, tenant_app1]"
  let ?ts = "[\<lparr>key = Str ''Tenant'', term_type = ''c'', points = 2\<rparr>]"
  note trunc = search_truncates [OF ex_terms_class, of str_of s "[tenant_name, tenant_app1]"]
  from trunc [THEN conjunct1]
  obtain res where "fst (search str_of ?B ''#Tenant'') = Inr (res, card (candidates ?B ?ts))"
    by (elim exE conjE)
  then show "get_terms ''#Tenant'' = Inr ?ts
   \<and> fst (search str_of ?B ''#Tenant'') =
       Inr ([\<lparr>pscore = 2, sscore = 0, terms = {str_of (Str ''Tenant'')},
              uid = ''uni/tn-APP1''\<rparr>,
             \<lparr>pscore = 2, sscore = 0, terms = {str_of (Str ''Tenant'')},
              uid = ''uni/tn-name''\<rparr>],
            card (candidates ?B ?ts))
   \<and> card (candidates ?B ?ts) = 2"
    using ex_search_class [of str_of s] ex_terms_class by simp
qed

text \<open>
  C10. The token \<open>#Tenant*name\<close> gives a ca Term and a cv Term with the same key
  (and \<open>=APP1*name\<close> a cv Term and an av Term with the same key). The tenant called
  \<open>name\<close> is matched by both: its pscore is 3 + 3 = 6, and its terms hold the one
  string of the shared key, fewer entries than the two Terms that scored.
\<close>

theorem matched_term_keys_fewer_than_terms:
  "get_terms ''#Tenant*name'' =
     Inr [\<lparr>key = Tup2 ''Tenant'' ''name'', term_type = ''ca'', points = 3\<rparr>,
          \<lparr>key = Tup2 ''Tenant'' ''name'', term_type = ''cv'', points = 3\<rparr>]
   \<and> parse_input ''=APP1*name'' =
       Inr [\<lparr>key = Tup2 ''name'' ''APP1'', term_type = ''cv'', points = 3\<rparr>,
            \<lparr>key = Tup2 ''name'' ''APP1'', term_type = ''av'', points = 3\<rparr>]
   \<and> fst (search str_of (index_searchables s [tenant_name, tenant_app1]) ''#Tenant*name'') =
       Inr ([\<lparr>pscore = 6, sscore = 0, terms = {str_of (Tup2 ''Tenant'' ''name'')},
              uid = ''uni/tn-name''\<rparr>,
             \<lparr>pscore = 3, sscore = 0, terms = {str_of (Tup2 ''Tenant'' ''name'')},
              uid = ''uni/tn-APP1''\<rparr>], 2)
   \<and> length (filter (\<lambda>t. ''uni/tn-name'' \<in> hits (index_searchables s [tenant_name, tenant_app1]) t)
        [\<lparr>key = Tup2 ''Tenant'' ''name'', term_type = ''ca'', points = 3\<rparr>,
         \<lparr>key = Tup2 ''Tenant'' ''name'', term_type = ''cv'', points = 3\<rparr>]) = 2
   \<and> card {str_of (Tup2 ''Tenant'' ''name'')} = 1
   \<and> card {str_of (Tup2 ''Tenant'' ''name'')} <
       length (filter (\<lambda>t. ''uni/tn-name'' \<in> hits (index_searchables s [tenant_name, tenant_app1]) t)
         [\<lparr>key = Tup2 ''Tenant'' ''name'', term_type = ''ca'', points = 3\<rparr>,
          \<lparr>key = Tup2 ''Tenant'' ''name'', term_type = ''cv'', points = 3\<rparr>])"
proof (intro conjI)
  show "parse_input ''=APP1*name'' =
       Inr [\<lparr>key = Tup2 ''name'' ''APP1'', term_type = ''cv'', points = 3\<rparr>,
            \<lparr>key = Tup2 ''name'' ''APP1'', term_type = ''av'', points = 3\<rparr>]"
    by (simp add: parse_input_def build_search_term_def re_literal_def any_escape_def
          class_escape_def attr_escape_def value_escape_def is_marker_def cls_def)
qed (simp_all add: ex_terms_wild ex_search_wild ex_hits)

end
